theory Spec2Isabelle
  imports Complex_Main
begin

section \<open>ProfileManager: data model\<close>

text \<open>
  The embedding follows \<^verbatim>\<open>src/src/ProfileManager.ts\<close>. A \<^verbatim>\<open>Profile\<close> is an object: it
  is represented by its identity (a reference into the list \<open>profiles\<close> of the \<open>Data\<close>
  tables of all profile objects created so far), so that two maps holding the same profile
  share it. A \<^verbatim>\<open>Signal\<close> is likewise represented by its identity. Lua numbers that the
  manager computes with (the retry delay, the clock) are rationals: the only arithmetic on
  the delay is doubling, which is exact on doubles below overflow.

  The profile store (\<^verbatim>\<open>ProfileService\<close>), the signal library, the clock and the scheduler
  are outside the repository. Every call into them is recorded in \<open>trace\<close>; what the store
  answers, and when, is a parameter of the model. Three things are assumed of them: each
  successful store call returns a new profile object; \<^verbatim>\<open>Release\<close>, \<^verbatim>\<open>Save\<close>, \<^verbatim>\<open>Reconcile\<close>
  and \<^verbatim>\<open>fire\<close> do not yield; and a caller resumed by \<^verbatim>\<open>fire\<close> goes on only after the
  lines that fired have run to their next yield point or return.
\<close>

type_synonym key = string
type_synonym 'v payload = "string \<rightharpoonup> 'v"
type_synonym ref = nat
type_synonym signal = nat
type_synonym tid = nat

datatype op_type = LoadOp | ViewOp

datatype message =
    CouldNotLoad key rat
  | LoadedIn key rat
  | ViewedIn key rat
  | Unloaded key
  | CouldNotUnload key

datatype event =
    LoadProfileAsync key
  | ViewProfileAsync key
  | Release ref
  | Save ref
  | Reconcile ref
  | Fire signal ref
  | TaskWait rat
  | Warn message
  | Print message

text \<open>
  A task is a caller of the manager. Between two yield points (\<^verbatim>\<open>LoadProfileAsync\<close>,
  \<^verbatim>\<open>ViewProfileAsync\<close>, \<^verbatim>\<open>signal.wait\<close>, \<^verbatim>\<open>task.wait\<close>) the Luau scheduler runs one
  task only; a suspended task is its continuation: the locals it still needs.
\<close>

datatype task =
    Idle
  | ViewCalling key signal rat
  | ViewWaiting signal
  | ViewDone "ref option"
  | LoadCalling key "rat option" rat
  | LoadSleeping key rat rat
  | LoadDone ref

record 'v world =
  template :: "'v payload"
  loadedProfiles :: "key \<rightharpoonup> ref"
  viewedProfiles :: "key \<rightharpoonup> ref"
  awaitingOperations :: "key \<rightharpoonup> op_type \<times> signal"
  profiles :: "'v payload list"
  signals :: nat
  clock :: rat
  calls :: nat
  trace :: "event list"
  tasks :: "tid \<Rightarrow> task"

definition init :: "'v payload \<Rightarrow> 'v world" where
  "init t = \<lparr> template = t, loadedProfiles = Map.empty, viewedProfiles = Map.empty,
     awaitingOperations = Map.empty, profiles = [], signals = 0, clock = 0, calls = 0,
     trace = [], tasks = (\<lambda>_. Idle) \<rparr>"

subsection \<open>Collaborators\<close>

definition emit :: "event \<Rightarrow> 'v world \<Rightarrow> 'v world" where
  "emit e s = s\<lparr>trace := trace s @ [e]\<rparr>"

text \<open>A successful store call creates a new profile object holding the stored payload.\<close>

definition new_profile :: "'v payload \<Rightarrow> 'v world \<Rightarrow> ref \<times> 'v world" where
  "new_profile d s = (length (profiles s), s\<lparr>profiles := profiles s @ [d]\<rparr>)"

text \<open>
  Modelled from the spec: \<^verbatim>\<open>Profile.Reconcile\<close> is a method of ProfileService, which is
  not part of the repository. The spec: it fills any field present in the template but
  absent in the payload and never overwrites an existing field.
\<close>

definition reconcile :: "'v payload \<Rightarrow> 'v payload \<Rightarrow> 'v payload" where
  "reconcile d t = (\<lambda>f. case d f of Some v \<Rightarrow> Some v | None \<Rightarrow> t f)"

definition profile_Reconcile :: "ref \<Rightarrow> 'v world \<Rightarrow> 'v world" where
  "profile_Reconcile p s =
     emit (Reconcile p) (s\<lparr>profiles := (profiles s)[p := reconcile (profiles s ! p) (template s)]\<rparr>)"

text \<open>
  \<^verbatim>\<open>signal.fire(v)\<close> resumes every task suspended in \<^verbatim>\<open>signal.wait()\<close> on that signal
  with \<open>v\<close>; such a task is at line 93 of \<^verbatim>\<open>view\<close> and returns \<open>v\<close> at once.
\<close>

definition fire :: "signal \<Rightarrow> ref \<Rightarrow> 'v world \<Rightarrow> 'v world" where
  "fire sg v s =
     emit (Fire sg v)
       (s\<lparr>tasks := (\<lambda>i. if tasks s i = ViewWaiting sg then ViewDone (Some v) else tasks s i)\<rparr>)"

text \<open>
  The answer of the store to the \<open>n\<close>-th call made on it: the payload (or nothing, when
  the load fails or the viewed key does not exist) and the time the call took.
\<close>

type_synonym 'v store = "nat \<Rightarrow> 'v payload option \<times> rat"

definition store_reply :: "'v store \<Rightarrow> 'v world \<Rightarrow> 'v payload option \<times> 'v world" where
  "store_reply env s =
     (case env (calls s) of
        (resp, took) \<Rightarrow> (resp, s\<lparr>clock := clock s + took, calls := Suc (calls s)\<rparr>))"

text \<open>
  \<^verbatim>\<open>task.wait(d)\<close> in a call that runs alone: the clock moves by \<open>d\<close>. (Under the
  scheduler below the task wakes at any time from \<open>d\<close> on.)
\<close>

definition sleep :: "rat \<Rightarrow> 'v world \<Rightarrow> 'v world" where
  "sleep d s = s\<lparr>clock := clock s + d\<rparr>"

definition log_elapsed :: "message \<Rightarrow> rat \<Rightarrow> 'v world \<Rightarrow> 'v world" where
  "log_elapsed msg delta s = (if delta > 5 then emit (Warn msg) s else emit (Print msg) s)"

definition round2 :: "rat \<Rightarrow> rat" where
  "round2 delta = of_int \<lfloor>delta * 100\<rfloor> / 100"

section \<open>The operations, cut at their yield points\<close>

subsection \<open>load\<close>

datatype load_point = LoadReturn ref | LoadSuspendCall rat

text \<open>Lines 41 to 46: up to the point where \<^verbatim>\<open>LoadProfileAsync\<close> yields.\<close>

definition load_enter :: "key \<Rightarrow> 'v world \<Rightarrow> load_point \<times> 'v world" where
  "load_enter profileKey s =
     (let t = clock s in
      case loadedProfiles s profileKey of
        Some cached \<Rightarrow> (LoadReturn cached, s)
      | None \<Rightarrow> (LoadSuspendCall t, emit (LoadProfileAsync profileKey) s))"

datatype load_next = LoadFinished ref | LoadRetry rat

text \<open>Lines 47 to 73: from the answer of the store to the return or to \<^verbatim>\<open>task.wait\<close>.\<close>

definition load_resume ::
  "key \<Rightarrow> rat option \<Rightarrow> rat \<Rightarrow> 'v payload option \<Rightarrow> 'v world \<Rightarrow> load_next \<times> 'v world" where
  "load_resume profileKey retryTime t resp s =
     (case resp of
        None \<Rightarrow>
          (let retryTime' = (case retryTime of None \<Rightarrow> 1 / 10 | Some r \<Rightarrow> r * 2);
               s1 = (if retryTime' > 1 / 2
                     then emit (Warn (CouldNotLoad profileKey retryTime')) s else s)
           in (LoadRetry retryTime', emit (TaskWait retryTime') s1))
      | Some d \<Rightarrow>
          (case new_profile d s of
             (profile, s1) \<Rightarrow>
               (let s2 = s1\<lparr>loadedProfiles := (loadedProfiles s1)(profileKey \<mapsto> profile)\<rparr>;
                    delta = clock s2 - t;
                    msg = LoadedIn profileKey (round2 delta);
                    s3 = profile_Reconcile profile s2
                in (LoadFinished profile, log_elapsed msg delta s3))))"

text \<open>
  The whole call, run with no other task scheduled while it is suspended. The retry is
  the source's recursion; a store that never succeeds makes the call run forever, which
  is the value \<open>None\<close>.
\<close>

partial_function (option) load ::
  "'v store \<Rightarrow> key \<Rightarrow> rat option \<Rightarrow> 'v world \<Rightarrow> (ref \<times> 'v world) option" where
  "load env profileKey retryTime s =
     (case load_enter profileKey s of
        (LoadReturn cached, s1) \<Rightarrow> Some (cached, s1)
      | (LoadSuspendCall t, s1) \<Rightarrow>
          (case store_reply env s1 of
             (resp, s2) \<Rightarrow>
               (case load_resume profileKey retryTime t resp s2 of
                  (LoadFinished profile, s3) \<Rightarrow> Some (profile, s3)
                | (LoadRetry d, s3) \<Rightarrow> load env profileKey (Some d) (sleep d s3))))"

subsection \<open>view\<close>

datatype view_point = ViewReturn "ref option" | ViewSuspendWait signal | ViewSuspendCall signal rat

text \<open>
  Lines 82 to 99: up to \<^verbatim>\<open>signal.wait()\<close> or to the point where \<^verbatim>\<open>ViewProfileAsync\<close>
  yields. Nothing in these lines yields, so they run as one step.
\<close>

definition view_enter :: "key \<Rightarrow> 'v world \<Rightarrow> view_point \<times> 'v world" where
  "view_enter profileKey s =
     (let t = clock s in
      case loadedProfiles s profileKey of
        Some cached \<Rightarrow> (ViewReturn (Some cached), s)
      | None \<Rightarrow>
          (case viewedProfiles s profileKey of
             Some viewCached \<Rightarrow> (ViewReturn (Some viewCached), s)
           | None \<Rightarrow>
               (case awaitingOperations s profileKey of
                  Some inProgress \<Rightarrow> (ViewSuspendWait (snd inProgress), s)
                | None \<Rightarrow>
                    (let sg = signals s;
                         s1 = s\<lparr>signals := Suc (signals s)\<rparr>;
                         s2 = s1\<lparr>awaitingOperations :=
                                  (awaitingOperations s1)(profileKey \<mapsto> (ViewOp, sg))\<rparr>
                     in (ViewSuspendCall sg t, emit (ViewProfileAsync profileKey) s2)))))"

text \<open>Lines 99 to 113: from the answer of the store to the return.\<close>

definition view_resume ::
  "key \<Rightarrow> signal \<Rightarrow> rat \<Rightarrow> 'v payload option \<Rightarrow> 'v world \<Rightarrow> ref option \<times> 'v world" where
  "view_resume profileKey sg t resp s =
     (let (profile, s3) =
            (case resp of
               Some d \<Rightarrow>
                 (case new_profile d s of
                    (p, s0) \<Rightarrow>
                      (let s1 = fire sg p s0;
                           s2 = s1\<lparr>awaitingOperations := (awaitingOperations s1)(profileKey := None)\<rparr>
                       in (Some p, s2\<lparr>viewedProfiles := (viewedProfiles s2)(profileKey \<mapsto> p)\<rparr>)))
             | None \<Rightarrow> (None, s));
          delta = clock s3 - t;
          msg = ViewedIn profileKey (round2 delta)
      in (profile, log_elapsed msg delta s3))"

text \<open>
  The whole call, run with no other task scheduled while it is suspended: a call that
  suspends in \<^verbatim>\<open>signal.wait()\<close> then never returns, which is the value \<open>None\<close>.
\<close>

definition view :: "'v store \<Rightarrow> key \<Rightarrow> 'v world \<Rightarrow> (ref option \<times> 'v world) option" where
  "view env profileKey s =
     (case view_enter profileKey s of
        (ViewReturn r, s1) \<Rightarrow> Some (r, s1)
      | (ViewSuspendWait sg, s1) \<Rightarrow> None
      | (ViewSuspendCall sg t, s1) \<Rightarrow>
          (case store_reply env s1 of
             (resp, s2) \<Rightarrow> Some (view_resume profileKey sg t resp s2)))"

subsection \<open>unload and save\<close>

definition unload :: "key \<Rightarrow> 'v world \<Rightarrow> bool \<times> 'v world" where
  "unload profileKey s =
     (let s1 = (case loadedProfiles s profileKey of
                  Some profile \<Rightarrow> emit (Release profile) s
                | None \<Rightarrow> s);
          success = (loadedProfiles s1 profileKey \<noteq> None);
          s2 = s1\<lparr>loadedProfiles := (loadedProfiles s1)(profileKey := None)\<rparr>
      in if success then (True, emit (Print (Unloaded profileKey)) s2)
         else (False, emit (Warn (CouldNotUnload profileKey)) s2))"

definition save :: "key \<Rightarrow> 'v world \<Rightarrow> bool \<times> 'v world" where
  "save profileKey s =
     (case loadedProfiles s profileKey of
        Some profile \<Rightarrow> (True, emit (Save profile) s)
      | None \<Rightarrow> (False, s))"

section \<open>Calls in sequence\<close>

datatype call = Load key "rat option" | View key | Unload key | SaveCall key

fun exec1 :: "'v store \<Rightarrow> call \<Rightarrow> 'v world \<Rightarrow> 'v world option" where
  "exec1 env (Load k r) s = map_option snd (load env k r s)"
| "exec1 env (View k) s = map_option snd (view env k s)"
| "exec1 env (Unload k) s = Some (snd (unload k s))"
| "exec1 env (SaveCall k) s = Some (snd (save k s))"

fun exec :: "'v store \<Rightarrow> call list \<Rightarrow> 'v world \<Rightarrow> 'v world option" where
  "exec env [] s = Some s"
| "exec env (c # cs) s = (case exec1 env c s of None \<Rightarrow> None | Some s' \<Rightarrow> exec env cs s')"

section \<open>Concurrent callers\<close>

text \<open>
  The scheduler is cooperative and single-threaded: an action runs one task from one
  yield point to the next. An action is what the environment decides: which task enters
  a call, which suspended store call returns and with what, which sleeping task wakes,
  and how time passes. An action that does not apply leaves the world as it is.
\<close>

datatype 'v action =
    CallView tid key
  | ViewProfileAsyncReturns tid "'v payload option"
  | CallLoad tid key "rat option"
  | LoadProfileAsyncReturns tid "'v payload option"
  | TaskWaitReturns tid
  | CallUnload key
  | CallSave key
  | Elapse rat

definition set_task :: "tid \<Rightarrow> task \<Rightarrow> 'v world \<Rightarrow> 'v world" where
  "set_task i c s = s\<lparr>tasks := (tasks s)(i := c)\<rparr>"

definition begin_view :: "tid \<Rightarrow> key \<Rightarrow> 'v world \<Rightarrow> 'v world" where
  "begin_view i k s =
     (case view_enter k s of
        (ViewReturn r, s1) \<Rightarrow> set_task i (ViewDone r) s1
      | (ViewSuspendWait sg, s1) \<Rightarrow> set_task i (ViewWaiting sg) s1
      | (ViewSuspendCall sg t, s1) \<Rightarrow> set_task i (ViewCalling k sg t) s1)"

definition begin_load :: "tid \<Rightarrow> key \<Rightarrow> rat option \<Rightarrow> 'v world \<Rightarrow> 'v world" where
  "begin_load i k retryTime s =
     (case load_enter k s of
        (LoadReturn cached, s1) \<Rightarrow> set_task i (LoadDone cached) s1
      | (LoadSuspendCall t, s1) \<Rightarrow> set_task i (LoadCalling k retryTime t) s1)"

fun step :: "'v action \<Rightarrow> 'v world \<Rightarrow> 'v world" where
  "step (CallView i k) s = (if tasks s i = Idle then begin_view i k s else s)"
| "step (ViewProfileAsyncReturns i resp) s =
     (case tasks s i of
        ViewCalling k sg t \<Rightarrow>
          (case view_resume k sg t resp s of (r, s1) \<Rightarrow> set_task i (ViewDone r) s1)
      | _ \<Rightarrow> s)"
| "step (CallLoad i k retryTime) s = (if tasks s i = Idle then begin_load i k retryTime s else s)"
| "step (LoadProfileAsyncReturns i resp) s =
     (case tasks s i of
        LoadCalling k retryTime t \<Rightarrow>
          (case load_resume k retryTime t resp s of
             (LoadFinished profile, s1) \<Rightarrow> set_task i (LoadDone profile) s1
           | (LoadRetry d, s1) \<Rightarrow> set_task i (LoadSleeping k d (clock s1 + d)) s1)
      | _ \<Rightarrow> s)"
| "step (TaskWaitReturns i) s =
     (case tasks s i of
        LoadSleeping k d until \<Rightarrow> (if until \<le> clock s then begin_load i k (Some d) s else s)
      | _ \<Rightarrow> s)"
| "step (CallUnload k) s = snd (unload k s)"
| "step (CallSave k) s = snd (save k s)"
| "step (Elapse d) s = (if 0 \<le> d then s\<lparr>clock := clock s + d\<rparr> else s)"

fun run :: "'v action list \<Rightarrow> 'v world \<Rightarrow> 'v world" where
  "run [] s = s"
| "run (a # as) s = run as (step a s)"

section \<open>Observations on the trace\<close>

text \<open>The delays slept in \<^verbatim>\<open>task.wait\<close>, in order.\<close>

definition slept :: "event list \<Rightarrow> rat list" where
  "slept tr = concat (map (\<lambda>e. case e of TaskWait d \<Rightarrow> [d] | _ \<Rightarrow> []) tr)"

text \<open>The retry warnings of \<^verbatim>\<open>load\<close> (line 55), in order: the key and the delay they name.\<close>

definition retry_warnings :: "event list \<Rightarrow> (key \<times> rat) list" where
  "retry_warnings tr =
     concat (map (\<lambda>e. case e of Warn (CouldNotLoad k d) \<Rightarrow> [(k, d)] | _ \<Rightarrow> []) tr)"

text \<open>The number of calls made on the store.\<close>

definition store_calls :: "event list \<Rightarrow> nat" where
  "store_calls tr =
     length (filter (\<lambda>e. case e of LoadProfileAsync k \<Rightarrow> True | ViewProfileAsync k \<Rightarrow> True
                          | _ \<Rightarrow> False) tr)"

text \<open>The profiles on which \<^verbatim>\<open>Reconcile\<close> was called, in order.\<close>

definition reconciled :: "event list \<Rightarrow> ref list" where
  "reconciled tr = concat (map (\<lambda>e. case e of Reconcile p \<Rightarrow> [p] | _ \<Rightarrow> []) tr)"

text \<open>The delay that \<^verbatim>\<open>load\<close> sleeps after a failed attempt entered with \<open>retryTime\<close>.\<close>

definition next_delay :: "rat option \<Rightarrow> rat" where
  "next_delay retryTime = (case retryTime of None \<Rightarrow> 1 / 10 | Some r \<Rightarrow> r * 2)"

text \<open>
  What a failed attempt followed by a sleep of \<open>d\<close> leaves in the trace: the store call,
  the warning if and only if \<open>d\<close> exceeds 0.5, the sleep. And what a successful attempt
  that took \<open>took\<close> leaves.
\<close>

definition retry_events :: "key \<Rightarrow> rat \<Rightarrow> event list" where
  "retry_events k d =
     LoadProfileAsync k # (if d > 1 / 2 then [Warn (CouldNotLoad k d)] else []) @ [TaskWait d]"

definition success_events :: "key \<Rightarrow> ref \<Rightarrow> rat \<Rightarrow> event list" where
  "success_events k p took =
     [LoadProfileAsync k, Reconcile p,
      if took > 5 then Warn (LoadedIn k (round2 took)) else Print (LoadedIn k (round2 took))]"

text \<open>Two calls of \<^verbatim>\<open>load\<close> in sequence.\<close>

definition load_twice ::
  "'v store \<Rightarrow> key \<Rightarrow> 'v world \<Rightarrow> ((ref \<times> ref) \<times> 'v world) option" where
  "load_twice env k s =
     (case load env k None s of
        None \<Rightarrow> None
      | Some (p1, s1) \<Rightarrow>
          (case load env k None s1 of
             None \<Rightarrow> None
           | Some (p2, s2) \<Rightarrow> Some ((p1, p2), s2)))"

text \<open>A store whose first \<open>n\<close> calls fail and whose later calls return the payload \<open>d\<close>.\<close>

definition fails_then :: "nat \<Rightarrow> 'v payload \<Rightarrow> 'v store" where
  "fails_then n d i = (if i < n then (None, 0) else (Some d, 0))"

text \<open>
  The world after a failed attempt of \<^verbatim>\<open>load\<close> and the sleep that follows it, and the
  world after a successful attempt; \<open>took\<close> is the time the store call took.
\<close>

definition retry_world :: "key \<Rightarrow> rat option \<Rightarrow> rat \<Rightarrow> 'v world \<Rightarrow> 'v world" where
  "retry_world k retryTime took s =
     s\<lparr>clock := clock s + took + next_delay retryTime, calls := Suc (calls s),
       trace := trace s @ retry_events k (next_delay retryTime)\<rparr>"

definition loaded_world :: "key \<Rightarrow> 'v payload \<Rightarrow> rat \<Rightarrow> 'v world \<Rightarrow> 'v world" where
  "loaded_world k d took s =
     s\<lparr>loadedProfiles := (loadedProfiles s)(k \<mapsto> length (profiles s)),
       profiles := profiles s @ [reconcile d (template s)],
       clock := clock s + took, calls := Suc (calls s),
       trace := trace s @ success_events k (length (profiles s)) took\<rparr>"

text \<open>
  The worlds that the two halves of \<^verbatim>\<open>view\<close> leave: after the pending operation is
  registered and the store is called; after the store has returned the payload \<open>d\<close>; after
  the store has reported that the key does not exist.
\<close>

definition log_event :: "message \<Rightarrow> rat \<Rightarrow> event" where
  "log_event msg delta = (if delta > 5 then Warn msg else Print msg)"

definition registered_world :: "key \<Rightarrow> 'v world \<Rightarrow> 'v world" where
  "registered_world k s =
     s\<lparr>awaitingOperations := (awaitingOperations s)(k \<mapsto> (ViewOp, signals s)),
       signals := Suc (signals s),
       trace := trace s @ [ViewProfileAsync k]\<rparr>"

definition delivered_world :: "key \<Rightarrow> signal \<Rightarrow> rat \<Rightarrow> 'v payload \<Rightarrow> 'v world \<Rightarrow> 'v world" where
  "delivered_world k sg t d s =
     s\<lparr>viewedProfiles := (viewedProfiles s)(k \<mapsto> length (profiles s)),
       awaitingOperations := (awaitingOperations s)(k := None),
       profiles := profiles s @ [d],
       trace := trace s @ [Fire sg (length (profiles s)),
                           log_event (ViewedIn k (round2 (clock s - t))) (clock s - t)],
       tasks := (\<lambda>j. if tasks s j = ViewWaiting sg then ViewDone (Some (length (profiles s)))
                     else tasks s j)\<rparr>"

definition not_found_world :: "key \<Rightarrow> rat \<Rightarrow> 'v world \<Rightarrow> 'v world" where
  "not_found_world k t s =
     s\<lparr>trace := trace s @ [log_event (ViewedIn k (round2 (clock s - t))) (clock s - t)]\<rparr>"

text \<open>The store call of \<^verbatim>\<open>view\<close> returns, after \<open>took\<close>.\<close>

definition replied :: "rat \<Rightarrow> 'v world \<Rightarrow> 'v world" where
  "replied took s = s\<lparr>clock := clock s + took, calls := Suc (calls s)\<rparr>"

section \<open>Invariants of the scheduler\<close>

text \<open>
  Every task suspended in \<^verbatim>\<open>ViewProfileAsync\<close> for a key has its pending operation
  registered under that key, with its own signal, and the key has no cached view yet.
\<close>

definition view_calls_registered :: "'v world \<Rightarrow> bool" where
  "view_calls_registered s \<longleftrightarrow>
     (\<forall>i k sg t. tasks s i = ViewCalling k sg t \<longrightarrow>
        awaitingOperations s k = Some (ViewOp, sg) \<and> viewedProfiles s k = None)"

text \<open>At most one task is suspended in \<^verbatim>\<open>ViewProfileAsync\<close> for a key.\<close>

definition one_view_call :: "'v world \<Rightarrow> bool" where
  "one_view_call s \<longleftrightarrow>
     (\<forall>i j k sg t sg' t'. tasks s i = ViewCalling k sg t \<and> tasks s j = ViewCalling k sg' t' \<longrightarrow>
        i = j)"

definition consistent :: "'v world \<Rightarrow> bool" where
  "consistent s \<longleftrightarrow> view_calls_registered s \<and> one_view_call s"

text \<open>
  The part of the world that the invariants speak about is left alone between \<open>s\<close> and
  \<open>s'\<close>: the viewed cache, the pending map, the signals, and the tasks that are inside
  \<^verbatim>\<open>view\<close>.
\<close>

fun in_view :: "task \<Rightarrow> bool" where
  "in_view (ViewCalling k sg t) = True"
| "in_view (ViewWaiting sg) = True"
| "in_view _ = False"

definition view_frame :: "'v world \<Rightarrow> 'v world \<Rightarrow> bool" where
  "view_frame s s' \<longleftrightarrow>
     viewedProfiles s' = viewedProfiles s \<and> awaitingOperations s' = awaitingOperations s \<and>
     signals s' = signals s \<and>
     (\<forall>j. in_view (tasks s' j) \<or> in_view (tasks s j) \<longrightarrow> tasks s' j = tasks s j)"

fun view_action :: "'v action \<Rightarrow> bool" where
  "view_action (CallView i k) = True"
| "view_action (ViewProfileAsyncReturns i resp) = True"
| "view_action _ = False"

text \<open>
  \<^verbatim>\<open>ViewProfileAsync\<close> has been called at most once for a key, and a key for which it has been
  called has a pending operation or a cached view.
\<close>

definition view_called_once :: "'v world \<Rightarrow> bool" where
  "view_called_once s \<longleftrightarrow>
     (\<forall>k. count_list (trace s) (ViewProfileAsync k) \<le> 1 \<and>
          (0 < count_list (trace s) (ViewProfileAsync k) \<longrightarrow>
             awaitingOperations s k \<noteq> None \<or> viewedProfiles s k \<noteq> None))"

text \<open>
  A signal that exists already and that no task suspended in \<^verbatim>\<open>ViewProfileAsync\<close> holds:
  nothing will fire it.
\<close>

definition orphaned :: "signal \<Rightarrow> 'v world \<Rightarrow> bool" where
  "orphaned sg s \<longleftrightarrow> sg < signals s \<and> (\<forall>j k t. tasks s j \<noteq> ViewCalling k sg t)"

text \<open>
  Task \<open>i\<close> waits on the signal of the pending operation of key \<open>k\<close>, and that signal is
  orphaned.
\<close>

definition stuck :: "tid \<Rightarrow> key \<Rightarrow> signal \<Rightarrow> 'v world \<Rightarrow> bool" where
  "stuck i k sg s \<longleftrightarrow>
     consistent s \<and> orphaned sg s \<and> tasks s i = ViewWaiting sg \<and>
     awaitingOperations s k = Some (ViewOp, sg) \<and> viewedProfiles s k = None"

text \<open>A key with a pending operation has no cached view.\<close>

definition pending_unviewed :: "'v world \<Rightarrow> bool" where
  "pending_unviewed s \<longleftrightarrow> (\<forall>k. awaitingOperations s k \<noteq> None \<longrightarrow> viewedProfiles s k = None)"

text \<open>
  Task 0 views the key \<open>P1\<close> and is suspended in the store call; meanwhile task 1 loads
  \<open>P1\<close> and the store returns it.
\<close>

definition loaded_while_pending_run :: "nat action list" where
  "loaded_while_pending_run =
     [CallView 0 ''P1'', CallLoad 1 ''P1'' None, LoadProfileAsyncReturns 1 (Some Map.empty)]"

text \<open>
  Two tasks view the key \<open>P3\<close>, which the store does not have: task 0 calls the store,
  task 1 arrives while the call is pending, then the store reports that the key does not
  exist.
\<close>

definition not_found_run :: "nat action list" where
  "not_found_run = [CallView 0 ''P3'', CallView 1 ''P3'', ViewProfileAsyncReturns 0 None]"

section \<open>Properties of load\<close>

lemma load_body:
  "(case load_enter k s of
      (LoadReturn cached, s1) \<Rightarrow> Some (cached, s1)
    | (LoadSuspendCall t, s1) \<Rightarrow>
        (case store_reply env s1 of
           (resp, s2) \<Rightarrow>
             (case load_resume k rt t resp s2 of
                (LoadFinished profile, s3) \<Rightarrow> Some (profile, s3)
              | (LoadRetry d, s3) \<Rightarrow> f env k (Some d) (sleep d s3)))) =
   (case loadedProfiles s k of
      Some cached \<Rightarrow> Some (cached, s)
    | None \<Rightarrow>
        (case fst (env (calls s)) of
           Some d \<Rightarrow> Some (length (profiles s), loaded_world k d (snd (env (calls s))) s)
         | None \<Rightarrow> f env k (Some (next_delay rt)) (retry_world k rt (snd (env (calls s))) s)))"
proof (cases "loadedProfiles s k")
  case (Some c)
  then show ?thesis by (simp add: load_enter_def)
next
  case None
  obtain resp took where e: "env (calls s) = (resp, took)" by (cases "env (calls s)")
  show ?thesis
  proof (cases resp)
    case (Some d)
    with None e show ?thesis
      by (cases s)
         (simp add: load_enter_def store_reply_def load_resume_def emit_def Let_def
            new_profile_def profile_Reconcile_def log_elapsed_def success_events_def
            loaded_world_def)
  next
    case rn: None
    with None e show ?thesis
      by (cases s)
         (simp add: load_enter_def store_reply_def load_resume_def emit_def sleep_def Let_def
            next_delay_def retry_events_def retry_world_def)
  qed
qed

lemma load_unfold:
  "load env k rt s =
   (case loadedProfiles s k of
      Some cached \<Rightarrow> Some (cached, s)
    | None \<Rightarrow>
        (case fst (env (calls s)) of
           Some d \<Rightarrow> Some (length (profiles s), loaded_world k d (snd (env (calls s))) s)
         | None \<Rightarrow> load env k (Some (next_delay rt)) (retry_world k rt (snd (env (calls s))) s)))"
  by (subst load.simps) (rule load_body)

lemma retry_world_simps:
  "loadedProfiles (retry_world k rt took s) = loadedProfiles s"
  "viewedProfiles (retry_world k rt took s) = viewedProfiles s"
  "awaitingOperations (retry_world k rt took s) = awaitingOperations s"
  "tasks (retry_world k rt took s) = tasks s"
  "template (retry_world k rt took s) = template s"
  "profiles (retry_world k rt took s) = profiles s"
  "signals (retry_world k rt took s) = signals s"
  "calls (retry_world k rt took s) = Suc (calls s)"
  "clock (retry_world k rt took s) = clock s + took + next_delay rt"
  "trace (retry_world k rt took s) = trace s @ retry_events k (next_delay rt)"
  by (simp_all add: retry_world_def)

lemma loaded_world_simps:
  "loadedProfiles (loaded_world k d took s) = (loadedProfiles s)(k \<mapsto> length (profiles s))"
  "viewedProfiles (loaded_world k d took s) = viewedProfiles s"
  "awaitingOperations (loaded_world k d took s) = awaitingOperations s"
  "tasks (loaded_world k d took s) = tasks s"
  "template (loaded_world k d took s) = template s"
  "profiles (loaded_world k d took s) = profiles s @ [reconcile d (template s)]"
  "signals (loaded_world k d took s) = signals s"
  "calls (loaded_world k d took s) = Suc (calls s)"
  "clock (loaded_world k d took s) = clock s + took"
  "trace (loaded_world k d took s) = trace s @ success_events k (length (profiles s)) took"
  by (simp_all add: loaded_world_def)

lemma load_result_aux:
  assumes "load env k rt s = Some y"
  shows "loadedProfiles (snd y) k = Some (fst y) \<and> viewedProfiles (snd y) = viewedProfiles s \<and>
     awaitingOperations (snd y) = awaitingOperations s \<and> tasks (snd y) = tasks s \<and>
     template (snd y) = template s \<and>
     (\<forall>k'. k' \<noteq> k \<longrightarrow> loadedProfiles (snd y) k' = loadedProfiles s k') \<and>
     (\<exists>tr. trace (snd y) = trace s @ tr) \<and>
     (\<forall>c. loadedProfiles s k = Some c \<longrightarrow> y = (c, s)) \<and>
     (loadedProfiles s k = None \<longrightarrow>
        fst y = length (profiles s) \<and> (\<exists>tr. trace (snd y) = trace s @ LoadProfileAsync k # tr))"
proof -
  let ?P = "\<lambda>(env :: 'a store) k (rt :: rat option) s y.
     loadedProfiles (snd y) k = Some (fst y) \<and> viewedProfiles (snd y) = viewedProfiles s \<and>
     awaitingOperations (snd y) = awaitingOperations s \<and> tasks (snd y) = tasks s \<and>
     template (snd y) = template s \<and>
     (\<forall>k'. k' \<noteq> k \<longrightarrow> loadedProfiles (snd y) k' = loadedProfiles s k') \<and>
     (\<exists>tr. trace (snd y) = trace s @ tr) \<and>
     (\<forall>c. loadedProfiles s k = Some c \<longrightarrow> y = (c, s)) \<and>
     (loadedProfiles s k = None \<longrightarrow>
        fst y = length (profiles s) \<and> (\<exists>tr. trace (snd y) = trace s @ LoadProfileAsync k # tr))"
  have "?P env k rt s y"
  proof (rule load.raw_induct [where P = ?P, OF _ assms], goal_cases)
    case (1 load' env k rt s y)
    note body = 1(2) [unfolded load_body]
    show ?case
    proof (cases "loadedProfiles s k")
      case (Some c)
      with body show ?thesis by auto
    next
      case None
      show ?thesis
      proof (cases "fst (env (calls s))")
        case (Some d)
        with body None have "y = (length (profiles s), loaded_world k d (snd (env (calls s))) s)"
          by simp
        then show ?thesis using None by (simp add: loaded_world_simps success_events_def)
      next
        case rn: None
        with body None
        have "load' env k (Some (next_delay rt)) (retry_world k rt (snd (env (calls s))) s) = Some y"
          by simp
        from 1(1) [OF this] show ?thesis
          using None by (auto simp: retry_world_simps retry_events_def)
      qed
    qed
  qed
  then show ?thesis .
qed

lemma load_result:
  assumes "load env k rt s = Some (p, s')"
  shows "loadedProfiles s' k = Some p" and "viewedProfiles s' = viewedProfiles s"
    and "awaitingOperations s' = awaitingOperations s" and "tasks s' = tasks s"
    and "template s' = template s"
    and "k' \<noteq> k \<Longrightarrow> loadedProfiles s' k' = loadedProfiles s k'"
    and "\<exists>tr. trace s' = trace s @ tr"
    and "loadedProfiles s k = Some c \<Longrightarrow> p = c \<and> s' = s"
    and "loadedProfiles s k = None \<Longrightarrow> p = length (profiles s)"
    and "loadedProfiles s k = None \<Longrightarrow> \<exists>tr. trace s' = trace s @ LoadProfileAsync k # tr"
  using load_result_aux [OF assms] by simp_all


lemma load_cached:
  "loadedProfiles s k = Some p \<Longrightarrow> load env k rt s = Some (p, s)"
  by (subst load_unfold) simp

lemma load_success:
  "loadedProfiles s k = None \<Longrightarrow> fst (env (calls s)) = Some d \<Longrightarrow>
   load env k rt s = Some (length (profiles s), loaded_world k d (snd (env (calls s))) s)"
  by (subst load_unfold) simp

lemma load_failure:
  "loadedProfiles s k = None \<Longrightarrow> fst (env (calls s)) = None \<Longrightarrow>
   load env k rt s =
   load env k (Some (next_delay rt)) (retry_world k rt (snd (env (calls s))) s)"
  by (subst load_unfold) simp

lemma next_delay_Some: "next_delay (Some r) = r * 2"
  by (simp add: next_delay_def)

lemma load_retries:
  assumes "loadedProfiles s k = None"
    and "\<forall>i<N. fst (env (calls s + i)) = None"
    and "fst (env (calls s + N)) = Some d"
  shows "\<exists>s'. load env k rt s = Some (length (profiles s), s') \<and>
           trace s' = trace s @ concat (map (\<lambda>i. retry_events k (next_delay rt * 2 ^ i)) [0..<N])
                        @ success_events k (length (profiles s)) (snd (env (calls s + N))) \<and>
           loadedProfiles s' = (loadedProfiles s)(k \<mapsto> length (profiles s)) \<and>
           profiles s' = profiles s @ [reconcile d (template s)] \<and>
           calls s' = calls s + N + 1"
  using assms
proof (induction N arbitrary: s rt)
  case 0
  then have "load env k rt s = Some (length (profiles s), loaded_world k d (snd (env (calls s))) s)"
    by (simp add: load_success)
  then show ?case by (simp add: loaded_world_simps fun_upd_def)
next
  case (Suc N)
  have f0: "fst (env (calls s)) = None" using Suc.prems(2) [rule_format, of 0] by simp
  let ?s1 = "retry_world k rt (snd (env (calls s))) s"
  have step: "load env k rt s = load env k (Some (next_delay rt)) ?s1"
    using Suc.prems(1) f0 by (simp add: load_failure)
  have p1: "loadedProfiles ?s1 k = None" using Suc.prems(1) by (simp add: retry_world_simps)
  have p2: "\<forall>i<N. fst (env (calls ?s1 + i)) = None"
  proof (intro allI impI)
    fix i assume "i < N"
    then have "fst (env (calls s + Suc i)) = None"
      using Suc.prems(2) [rule_format, of "Suc i"] by simp
    then show "fst (env (calls ?s1 + i)) = None" by (simp add: retry_world_simps)
  qed
  have p3: "fst (env (calls ?s1 + N)) = Some d" using Suc.prems(3) by (simp add: retry_world_simps)
  from Suc.IH [OF p1 p2 p3, of "Some (next_delay rt)"]
  obtain s' where
    r: "load env k (Some (next_delay rt)) ?s1 = Some (length (profiles ?s1), s')"
    and t: "trace s' = trace ?s1 @
              concat (map (\<lambda>i. retry_events k (next_delay (Some (next_delay rt)) * 2 ^ i)) [0..<N])
                @ success_events k (length (profiles ?s1)) (snd (env (calls ?s1 + N)))"
    and rest: "loadedProfiles s' = (loadedProfiles ?s1)(k \<mapsto> length (profiles ?s1))"
      "profiles s' = profiles ?s1 @ [reconcile d (template ?s1)]"
      "calls s' = calls ?s1 + N + 1"
    by blast
  have shift: "map (\<lambda>i. retry_events k (next_delay rt * 2 ^ i)) [0..<Suc N] =
      retry_events k (next_delay rt) #
        map (\<lambda>i. retry_events k (next_delay (Some (next_delay rt)) * 2 ^ i)) [0..<N]"
    by (simp add: map_upt_Suc next_delay_Some mult.assoc del: upt_Suc)
  show ?case
    using r t rest unfolding step shift by (simp add: retry_world_simps fun_upd_def)
qed

text \<open>A store that fails for ever: the call never returns.\<close>

lemma load_never_returns:
  assumes "loadedProfiles s k = None" and "\<forall>i. fst (env (calls s + i)) = None"
  shows "load env k rt s = None"
proof (rule ccontr)
  assume "load env k rt s \<noteq> None"
  then obtain y where y: "load env k rt s = Some y" by auto
  let ?P = "\<lambda>(env :: 'a store) k (rt :: rat option) s (y :: ref \<times> 'a world).
     \<not> (loadedProfiles s k = None \<and> (\<forall>i. fst (env (calls s + i)) = None))"
  have "?P env k rt s y"
  proof (rule load.raw_induct [where P = ?P, OF _ y], goal_cases)
    case (1 load' env k rt s y)
    note body = 1(2) [unfolded load_body]
    show ?case
    proof
      assume a: "loadedProfiles s k = None \<and> (\<forall>i. fst (env (calls s + i)) = None)"
      then have n: "loadedProfiles s k = None" and f: "\<forall>i. fst (env (calls s + i)) = None"
        by blast+
      from f [rule_format, of 0] have f0: "fst (env (calls s)) = None" by simp
      let ?s1 = "retry_world k rt (snd (env (calls s))) s"
      from body n f0 have "load' env k (Some (next_delay rt)) ?s1 = Some y" by simp
      from 1(1) [OF this]
      have "\<not> (loadedProfiles ?s1 k = None \<and> (\<forall>i. fst (env (calls ?s1 + i)) = None))" .
      moreover have "loadedProfiles ?s1 k = None" using n by (simp add: retry_world_simps)
      moreover have "\<forall>i. fst (env (calls ?s1 + i)) = None"
      proof
        fix i from f [rule_format, of "Suc i"]
        show "fst (env (calls ?s1 + i)) = None" by (simp add: retry_world_simps)
      qed
      ultimately show False by blast
    qed
  qed
  with assms show False by blast
qed

lemma slept_append: "slept (xs @ ys) = slept xs @ slept ys"
  by (simp add: slept_def)

lemma slept_retry_events: "slept (retry_events k d) = [d]"
  by (simp add: slept_def retry_events_def)

lemma slept_success_events: "slept (success_events k p took) = []"
  by (simp add: slept_def success_events_def)

lemma slept_retries: "slept (concat (map (\<lambda>i. retry_events k (f i)) ns)) = map f ns"
  by (induction ns) (simp_all add: slept_append slept_retry_events, simp add: slept_def)

lemma retry_warnings_append: "retry_warnings (xs @ ys) = retry_warnings xs @ retry_warnings ys"
  by (simp add: retry_warnings_def)

lemma retry_warnings_retry_events:
  "retry_warnings (retry_events k d) = (if d > 1 / 2 then [(k, d)] else [])"
  by (simp add: retry_warnings_def retry_events_def)

lemma retry_warnings_success_events: "retry_warnings (success_events k p took) = []"
  by (simp add: retry_warnings_def success_events_def)

lemma retry_warnings_retries:
  "retry_warnings (concat (map (\<lambda>i. retry_events k (f i)) ns)) =
   map (Pair k) (filter (\<lambda>d. d > 1 / 2) (map f ns))"
  by (induction ns)
     (simp_all add: retry_warnings_append retry_warnings_retry_events, simp add: retry_warnings_def)

lemma store_calls_append: "store_calls (xs @ ys) = store_calls xs + store_calls ys"
  by (simp add: store_calls_def)

lemma store_calls_retry_events: "store_calls (retry_events k d) = 1"
  by (simp add: store_calls_def retry_events_def)

lemma store_calls_success_events: "store_calls (success_events k p took) = 1"
  by (simp add: store_calls_def success_events_def)

lemma upt_from_1: "[1..<Suc N] = map Suc [0..<N]"
  by (simp add: map_Suc_upt del: upt_Suc)

text \<open>
  C3. When \<^verbatim>\<open>load\<close> is called without a retry delay on a key that is not loaded and the
  store fails \<open>N\<close> times in a row before it succeeds, the call returns, whatever \<open>N\<close> is;
  it sleeps \<open>N\<close> times, the \<open>n\<close>-th time for \<open>0.1 * 2^(n-1)\<close>; and each failed attempt
  leaves in the trace its store call, then the warning naming the key and the delay if and
  only if the delay exceeds \<open>0.5\<close>, then the sleep.
\<close>

theorem load_backoff:
  assumes "loadedProfiles s k = None"
    and "\<forall>i<N. fst (env (calls s + i)) = None"
    and "fst (env (calls s + N)) = Some d"
  shows "\<exists>p s'. load env k None s = Some (p, s') \<and>
           trace s' = trace s @ concat (map (\<lambda>n. retry_events k (1 / 10 * 2 ^ (n - 1))) [1..<Suc N])
                        @ success_events k p (snd (env (calls s + N))) \<and>
           slept (trace s') = slept (trace s) @ map (\<lambda>n. 1 / 10 * 2 ^ (n - 1)) [1..<Suc N] \<and>
           retry_warnings (trace s') =
             retry_warnings (trace s) @
               map (Pair k) (filter (\<lambda>d. d > 1 / 2) (map (\<lambda>n. 1 / 10 * 2 ^ (n - 1)) [1..<Suc N]))"
proof -
  from load_retries [where env = env and rt = None, OF assms]
  obtain s' where r: "load env k None s = Some (length (profiles s), s')"
    and t: "trace s' = trace s @ concat (map (\<lambda>i. retry_events k (next_delay None * 2 ^ i)) [0..<N])
                        @ success_events k (length (profiles s)) (snd (env (calls s + N)))"
    by blast
  have d: "next_delay None = 1 / 10" by (simp add: next_delay_def)
  have m: "map (\<lambda>n. retry_events k (1 / 10 * 2 ^ (n - 1))) [1..<Suc N] =
           map (\<lambda>i. retry_events k (1 / 10 * 2 ^ i)) [0..<N]"
    unfolding upt_from_1 by (simp add: comp_def del: upt_Suc)
  have m': "map (\<lambda>n. 1 / 10 * 2 ^ (n - 1)) [1..<Suc N] = map (\<lambda>i. (1 / 10 * 2 ^ i :: rat)) [0..<N]"
    unfolding upt_from_1 by (simp add: comp_def del: upt_Suc)
  have t': "trace s' = trace s @ concat (map (\<lambda>n. retry_events k (1 / 10 * 2 ^ (n - 1))) [1..<Suc N])
                        @ success_events k (length (profiles s)) (snd (env (calls s + N)))"
    unfolding m using t d by simp
  have sl: "slept (trace s') = slept (trace s) @ map (\<lambda>n. 1 / 10 * 2 ^ (n - 1)) [1..<Suc N]"
    unfolding m' using t d by (simp add: slept_append slept_retries slept_success_events)
  have rw: "retry_warnings (trace s') =
             retry_warnings (trace s) @
               map (Pair k) (filter (\<lambda>d. d > 1 / 2) (map (\<lambda>n. 1 / 10 * 2 ^ (n - 1)) [1..<Suc N]))"
    unfolding m' using t d
    by (simp add: retry_warnings_append retry_warnings_retries retry_warnings_success_events)
  from r t' sl rw show ?thesis by blast
qed

theorem load_backoff_witness:
  "\<exists>p s'. load (fails_then 4 Map.empty) ''P2'' None (init (Map.empty :: nat payload)) = Some (p, s') \<and>
     slept (trace s') = [1 / 10, 1 / 5, 2 / 5, 4 / 5] \<and>
     retry_warnings (trace s') = [(''P2'', 4 / 5)]"
proof -
  have h1: "loadedProfiles (init (Map.empty :: nat payload)) ''P2'' = None"
    by (simp add: init_def)
  have h2: "\<forall>i<4. fst (fails_then 4 (Map.empty :: nat payload) (calls (init (Map.empty :: nat payload)) + i)) = None"
    by (simp add: init_def fails_then_def)
  have h3: "fst (fails_then 4 (Map.empty :: nat payload) (calls (init (Map.empty :: nat payload)) + 4)) = Some Map.empty"
    by (simp add: init_def fails_then_def)
  have u: "[1..<Suc 4] = [1, 2, 3, 4]"
    by (simp add: eval_nat_numeral)
  have p: "(2::rat) ^ (4 - 1) = 8" "(2::rat) ^ (3 - 1) = 4" "(2::rat) ^ (2 - 1) = 2"
    by (simp_all add: eval_nat_numeral)
  from load_backoff [where env = "fails_then 4 Map.empty" and N = 4, OF h1 h2 h3]
  obtain q s' where
    a: "load (fails_then 4 Map.empty) ''P2'' None (init (Map.empty :: nat payload)) = Some (q, s')"
    and b: "slept (trace s') = slept (trace (init (Map.empty :: nat payload))) @
              map (\<lambda>n. 1 / 10 * 2 ^ (n - 1)) [1..<Suc 4]"
    and c: "retry_warnings (trace s') =
             retry_warnings (trace (init (Map.empty :: nat payload))) @
               map (Pair ''P2'')
                 (filter (\<lambda>d. d > 1 / 2) (map (\<lambda>n. 1 / 10 * 2 ^ (n - 1)) [1..<Suc 4]))"
    by blast
  have b': "slept (trace s') = [1 / 10, 1 / 5, 2 / 5, 4 / 5]"
    using b unfolding u by (simp add: p init_def slept_def)
  have c': "retry_warnings (trace s') = [(''P2'', 4 / 5)]"
    using c unfolding u by (simp add: p init_def retry_warnings_def)
  from a b' c' show ?thesis by blast
qed

lemma store_calls_retries: "store_calls (concat (map (\<lambda>i. retry_events k (f i)) ns)) = length ns"
  by (induction ns) (simp_all add: store_calls_append store_calls_retry_events, simp add: store_calls_def)

text \<open>
  C4 fails as stated. The store fails once and then succeeds: the first of two calls of
  \<^verbatim>\<open>load\<close> in sequence makes two store calls, not at most one.
\<close>

theorem load_twice_counterexample:
  "load_twice (fails_then 1 Map.empty) ''P1'' (init (Map.empty :: nat payload)) \<noteq> None \<and>
   store_calls (trace (snd (the (load_twice (fails_then 1 Map.empty) ''P1''
      (init (Map.empty :: nat payload)))))) = 2"
  by (simp add: load_twice_def load_unfold fails_then_def init_def retry_world_simps
        loaded_world_simps store_calls_append store_calls_retry_events store_calls_success_events)

text \<open>
  C4, with the store calls counted. When a call of \<^verbatim>\<open>load\<close> has returned a record, a
  second call for the same key (with no \<^verbatim>\<open>unload\<close> in between) returns the identical
  record and leaves the world as it is, so it makes no store call. The first call makes no
  store call when the key was loaded already, and \<open>N + 1\<close> store calls when the key was not
  loaded and the store failed \<open>N\<close> times before it succeeded: exactly one when the first
  attempt succeeds.
\<close>

theorem load_twice_cached:
  assumes "load env k rt s = Some (p, s1)"
  shows "load env' k rt' s1 = Some (p, s1) \<and>
         (rt = None \<longrightarrow> load_twice env k s = Some ((p, p), s1)) \<and>
         (loadedProfiles s k \<noteq> None \<longrightarrow> store_calls (trace s1) = store_calls (trace s)) \<and>
         (\<forall>N d. loadedProfiles s k = None \<and> (\<forall>i<N. fst (env (calls s + i)) = None) \<and>
            fst (env (calls s + N)) = Some d \<longrightarrow>
            store_calls (trace s1) = store_calls (trace s) + N + 1)"
proof -
  have l: "loadedProfiles s1 k = Some p" by (rule load_result(1) [OF assms])
  have a: "\<And>e r. load e k r s1 = Some (p, s1)" using l by (simp add: load_cached)
  have b: "rt = None \<longrightarrow> load_twice env k s = Some ((p, p), s1)"
    using assms a by (auto simp: load_twice_def)
  have c: "loadedProfiles s k \<noteq> None \<longrightarrow> store_calls (trace s1) = store_calls (trace s)"
    using load_result(8) [OF assms] by auto
  have d: "\<forall>N d. loadedProfiles s k = None \<and> (\<forall>i<N. fst (env (calls s + i)) = None) \<and>
            fst (env (calls s + N)) = Some d \<longrightarrow>
            store_calls (trace s1) = store_calls (trace s) + N + 1"
  proof (intro allI impI, elim conjE)
    fix N d
    assume n: "loadedProfiles s k = None" and f: "\<forall>i<N. fst (env (calls s + i)) = None"
      and g: "fst (env (calls s + N)) = Some d"
    from load_retries [where env = env and rt = rt, OF n f g] assms
    have "trace s1 = trace s @ concat (map (\<lambda>i. retry_events k (next_delay rt * 2 ^ i)) [0..<N])
                        @ success_events k (length (profiles s)) (snd (env (calls s + N)))"
      by auto
    then show "store_calls (trace s1) = store_calls (trace s) + N + 1"
      by (simp add: store_calls_append store_calls_retries store_calls_success_events)
  qed
  from a b c d show ?thesis by blast
qed

theorem load_twice_cached_witness:
  "load (fails_then 0 Map.empty) ''P1'' None (init (Map.empty :: nat payload)) =
     Some (0, loaded_world ''P1'' Map.empty 0 (init Map.empty)) \<and>
   load_twice (fails_then 0 Map.empty) ''P1'' (init (Map.empty :: nat payload)) =
     Some ((0, 0), loaded_world ''P1'' Map.empty 0 (init Map.empty)) \<and>
   store_calls (trace (loaded_world ''P1'' Map.empty 0 (init (Map.empty :: nat payload)))) = 1"
proof -
  let ?env = "fails_then 0 (Map.empty :: nat payload)"
  let ?i = "init (Map.empty :: nat payload)"
  have h: "load ?env ''P1'' None ?i = Some (0, loaded_world ''P1'' Map.empty 0 ?i)"
    by (simp add: load_unfold fails_then_def init_def)
  have n: "loadedProfiles ?i ''P1'' = None \<and> (\<forall>i<0. fst (?env (calls ?i + i)) = None) \<and>
      fst (?env (calls ?i + 0)) = Some Map.empty"
    by (simp add: init_def fails_then_def)
  from load_twice_cached [OF h, of ?env None]
  have "load_twice ?env ''P1'' ?i = Some ((0, 0), loaded_world ''P1'' Map.empty 0 ?i)"
    and "\<forall>N d. loadedProfiles ?i ''P1'' = None \<and> (\<forall>i<N. fst (?env (calls ?i + i)) = None) \<and>
            fst (?env (calls ?i + N)) = Some d \<longrightarrow>
            store_calls (trace (loaded_world ''P1'' Map.empty 0 ?i)) =
              store_calls (trace ?i) + N + 1"
    by blast+
  with n have "load_twice ?env ''P1'' ?i = Some ((0, 0), loaded_world ''P1'' Map.empty 0 ?i)"
    and "store_calls (trace (loaded_world ''P1'' Map.empty 0 ?i)) = store_calls (trace ?i) + 0 + 1"
    by blast+
  moreover have "store_calls (trace ?i) = 0" by (simp add: init_def store_calls_def)
  ultimately show ?thesis using h by simp
qed

lemma unload_loaded_None: "loadedProfiles (snd (unload k s)) k = None"
  by (simp add: unload_def Let_def emit_def)

lemma reconciled_append: "reconciled (xs @ ys) = reconciled xs @ reconciled ys"
  by (simp add: reconciled_def)

lemma reconciled_retry_events: "reconciled (retry_events k d) = []"
  by (simp add: reconciled_def retry_events_def)

lemma reconciled_success_events: "reconciled (success_events k p took) = [p]"
  by (simp add: reconciled_def success_events_def)

lemma reconciled_retries: "reconciled (concat (map (\<lambda>i. retry_events k (f i)) ns)) = []"
  by (induction ns) (simp_all add: reconciled_append reconciled_retry_events, simp add: reconciled_def)

lemma reconcile_fields:
  "(\<forall>f v. d f = Some v \<longrightarrow> reconcile d t f = Some v) \<and>
   (\<forall>f. d f = None \<longrightarrow> reconcile d t f = t f)"
  by (simp add: reconcile_def)

text \<open>
  C7. When the key is not loaded and the store succeeds (after any number \<open>N\<close> of failed
  attempts) with the payload \<open>d\<close>, \<^verbatim>\<open>load\<close> returns a new profile \<open>p\<close>, cached under
  \<open>loadedProfiles\<close>, whose data is the payload reconciled with the template: every field of
  the payload keeps its value and every field the payload lacks has the template's value;
  \<^verbatim>\<open>Reconcile\<close> is called exactly once, on \<open>p\<close>. On a hit of the loaded cache the world is
  left as it is: nothing is reconciled. The example of the spec: template
  \<open>{coins: 0, level: 1}\<close> and payload \<open>{coins: 50}\<close> give \<open>{coins: 50, level: 1}\<close>.
\<close>

theorem load_reconciles_once:
  "(loadedProfiles s k = None \<and> (\<forall>i<N. fst (env (calls s + i)) = None) \<and>
      fst (env (calls s + N)) = Some d \<longrightarrow>
      (\<exists>p s'. load env k rt s = Some (p, s') \<and>
         loadedProfiles s' k = Some p \<and> p = length (profiles s) \<and>
         profiles s' ! p = reconcile d (template s) \<and>
         (\<forall>f v. d f = Some v \<longrightarrow> (profiles s' ! p) f = Some v) \<and>
         (\<forall>f. d f = None \<longrightarrow> (profiles s' ! p) f = template s f) \<and>
         reconciled (trace s') = reconciled (trace s) @ [p])) \<and>
   (\<forall>c. loadedProfiles s k = Some c \<longrightarrow> load env k rt s = Some (c, s)) \<and>
   reconcile [''coins'' \<mapsto> 50 :: int] [''coins'' \<mapsto> 0, ''level'' \<mapsto> 1] =
     [''coins'' \<mapsto> 50, ''level'' \<mapsto> 1]"
proof (intro conjI impI allI)
  assume h: "loadedProfiles s k = None \<and> (\<forall>i<N. fst (env (calls s + i)) = None) \<and>
      fst (env (calls s + N)) = Some d"
  then have h1: "loadedProfiles s k = None" and h2: "\<forall>i<N. fst (env (calls s + i)) = None"
    and h3: "fst (env (calls s + N)) = Some d" by blast+
  from load_retries [where env = env and rt = rt, OF h1 h2 h3]
  obtain s' where r: "load env k rt s = Some (length (profiles s), s')"
    and t: "trace s' = trace s @ concat (map (\<lambda>i. retry_events k (next_delay rt * 2 ^ i)) [0..<N])
                        @ success_events k (length (profiles s)) (snd (env (calls s + N)))"
    and l: "loadedProfiles s' = (loadedProfiles s)(k \<mapsto> length (profiles s))"
    and p: "profiles s' = profiles s @ [reconcile d (template s)]"
    by blast
  have p': "profiles s' ! length (profiles s) = reconcile d (template s)"
    using p by simp
  have rc: "reconciled (trace s') = reconciled (trace s) @ [length (profiles s)]"
    using t by (simp add: reconciled_append reconciled_retries reconciled_success_events)
  show "\<exists>p s'. load env k rt s = Some (p, s') \<and>
         loadedProfiles s' k = Some p \<and> p = length (profiles s) \<and>
         profiles s' ! p = reconcile d (template s) \<and>
         (\<forall>f v. d f = Some v \<longrightarrow> (profiles s' ! p) f = Some v) \<and>
         (\<forall>f. d f = None \<longrightarrow> (profiles s' ! p) f = template s f) \<and>
         reconciled (trace s') = reconciled (trace s) @ [p]"
    using r l p' rc reconcile_fields [of d "template s"] by auto
next
  fix c assume "loadedProfiles s k = Some c"
  then show "load env k rt s = Some (c, s)" by (rule load_cached)
next
  show "reconcile [''coins'' \<mapsto> 50 :: int] [''coins'' \<mapsto> 0, ''level'' \<mapsto> 1] =
     [''coins'' \<mapsto> 50, ''level'' \<mapsto> 1]"
    by (auto simp: reconcile_def fun_eq_iff)
qed

theorem load_reconciles_once_witness:
  "\<exists>s'. load (fails_then 0 [''coins'' \<mapsto> 50 :: int]) ''P1'' None
            (init [''coins'' \<mapsto> 0, ''level'' \<mapsto> 1]) = Some (0, s') \<and>
         loadedProfiles s' ''P1'' = Some 0 \<and>
         profiles s' ! 0 = [''coins'' \<mapsto> 50, ''level'' \<mapsto> 1] \<and>
         reconciled (trace s') = [0]"
proof -
  let ?env = "fails_then 0 [''coins'' \<mapsto> 50 :: int]"
  let ?s = "init [''coins'' \<mapsto> 0 :: int, ''level'' \<mapsto> 1]"
  have h: "loadedProfiles ?s ''P1'' = None \<and> (\<forall>i<0. fst (?env (calls ?s + i)) = None) \<and>
      fst (?env (calls ?s + 0)) = Some [''coins'' \<mapsto> 50]"
    by (simp add: init_def fails_then_def)
  from load_reconciles_once [where env = ?env and s = ?s and k = "''P1''" and N = 0
      and d = "[''coins'' \<mapsto> 50]" and rt = None] h
  have "\<exists>p s'. load ?env ''P1'' None ?s = Some (p, s') \<and>
         loadedProfiles s' ''P1'' = Some p \<and> p = length (profiles ?s) \<and>
         profiles s' ! p = reconcile [''coins'' \<mapsto> 50] (template ?s) \<and>
         reconciled (trace s') = reconciled (trace ?s) @ [p]"
    by blast
  moreover have "reconcile [''coins'' \<mapsto> 50 :: int] (template ?s) = [''coins'' \<mapsto> 50, ''level'' \<mapsto> 1]"
    using load_reconciles_once [where env = ?env and s = ?s and k = "''P1''" and N = 0
      and d = "[''coins'' \<mapsto> 50]" and rt = None] by (simp add: init_def)
  ultimately show ?thesis by (auto simp: init_def reconciled_def)
qed

text \<open>
  C6. When the key is not in the loaded cache, \<^verbatim>\<open>load\<close> calls \<^verbatim>\<open>LoadProfileAsync\<close> first
  thing, whatever the viewed cache holds, and a call that returns has made that store call
  and returns a new profile object (no profile that existed before, so not the cached
  view). After \<^verbatim>\<open>unload\<close> the key is not in the loaded cache, so the next \<^verbatim>\<open>load\<close> calls
  the store again.
\<close>

theorem load_contacts_store:
  "(loadedProfiles s k = None \<longrightarrow>
      load_enter k s = (LoadSuspendCall (clock s), emit (LoadProfileAsync k) s) \<and>
      (\<forall>p s'. load env k rt s = Some (p, s') \<longrightarrow>
         (\<exists>tr. trace s' = trace s @ LoadProfileAsync k # tr) \<and> p = length (profiles s))) \<and>
   loadedProfiles (snd (unload k s)) k = None \<and>
   load_enter k (snd (unload k s)) =
     (LoadSuspendCall (clock (snd (unload k s))), emit (LoadProfileAsync k) (snd (unload k s)))"
proof (intro conjI impI allI)
  assume "loadedProfiles s k = None"
  then show "load_enter k s = (LoadSuspendCall (clock s), emit (LoadProfileAsync k) s)"
    by (simp add: load_enter_def)
next
  fix p s' assume n: "loadedProfiles s k = None" and l: "load env k rt s = Some (p, s')"
  show "\<exists>tr. trace s' = trace s @ LoadProfileAsync k # tr" by (rule load_result(10) [OF l n])
  show "p = length (profiles s)" by (rule load_result(9) [OF l n])
next
  show "loadedProfiles (snd (unload k s)) k = None" by (rule unload_loaded_None)
  then show "load_enter k (snd (unload k s)) =
     (LoadSuspendCall (clock (snd (unload k s))), emit (LoadProfileAsync k) (snd (unload k s)))"
    by (simp add: load_enter_def)
qed

theorem load_contacts_store_witness:
  "viewedProfiles ((init (Map.empty :: nat payload))\<lparr>viewedProfiles := [''P1'' \<mapsto> 0], profiles := [Map.empty]\<rparr>) ''P1'' = Some 0 \<and>
   (\<exists>s' tr. load (fails_then 0 Map.empty) ''P1'' None
       ((init (Map.empty :: nat payload))\<lparr>viewedProfiles := [''P1'' \<mapsto> 0], profiles := [Map.empty]\<rparr>) = Some (1, s') \<and>
      trace s' = LoadProfileAsync ''P1'' # tr)"
proof -
  let ?s = "(init (Map.empty :: nat payload))\<lparr>viewedProfiles := [''P1'' \<mapsto> 0], profiles := [Map.empty]\<rparr>"
  let ?env = "fails_then 0 (Map.empty :: nat payload)"
  have n: "loadedProfiles ?s ''P1'' = None" by (simp add: init_def)
  have f: "fst (?env (calls ?s)) = Some Map.empty" by (simp add: fails_then_def)
  have l: "load ?env ''P1'' None ?s =
     Some (length (profiles ?s), loaded_world ''P1'' Map.empty (snd (?env (calls ?s))) ?s)"
    by (rule load_success [where env = ?env and s = ?s, OF n f])
  from load_contacts_store [where s = ?s and k = "''P1''" and env = ?env and rt = None] n l
  have "\<exists>tr. trace (loaded_world ''P1'' Map.empty (snd (?env (calls ?s))) ?s) =
          trace ?s @ LoadProfileAsync ''P1'' # tr"
    by blast
  moreover have "trace ?s = []" "length (profiles ?s) = 1" by (simp_all add: init_def)
  ultimately show ?thesis using l by (simp add: init_def)
qed

section \<open>Properties of view and unload\<close>

text \<open>
  C5. When the key is in the loaded cache, \<^verbatim>\<open>view\<close> returns exactly the loaded profile and
  leaves the world as it is (no store call, no new profile object), whatever the viewed
  cache and the pending map hold; the same holds for a task that enters \<^verbatim>\<open>view\<close> under the
  scheduler.
\<close>

theorem view_prefers_loaded:
  assumes "loadedProfiles s k = Some p"
  shows "view_enter k s = (ViewReturn (Some p), s) \<and>
         view env k s = Some (Some p, s) \<and>
         (tasks s i = Idle \<longrightarrow> step (CallView i k) s = set_task i (ViewDone (Some p)) s)"
  using assms by (simp add: view_def view_enter_def begin_view_def)

theorem view_prefers_loaded_witness:
  "view (fails_then 0 Map.empty) ''P1''
     ((init (Map.empty :: nat payload))\<lparr>loadedProfiles := [''P1'' \<mapsto> 1],
        viewedProfiles := [''P1'' \<mapsto> 0], awaitingOperations := [''P1'' \<mapsto> (ViewOp, 0)],
        profiles := [Map.empty, Map.empty]\<rparr>) =
   Some (Some 1, (init (Map.empty :: nat payload))\<lparr>loadedProfiles := [''P1'' \<mapsto> 1],
        viewedProfiles := [''P1'' \<mapsto> 0], awaitingOperations := [''P1'' \<mapsto> (ViewOp, 0)],
        profiles := [Map.empty, Map.empty]\<rparr>)"
proof -
  let ?s = "(init (Map.empty :: nat payload))\<lparr>loadedProfiles := [''P1'' \<mapsto> 1],
        viewedProfiles := [''P1'' \<mapsto> 0], awaitingOperations := [''P1'' \<mapsto> (ViewOp, 0)],
        profiles := [Map.empty, Map.empty]\<rparr>"
  have h: "loadedProfiles ?s ''P1'' = Some 1" by simp
  from view_prefers_loaded [OF h, of "fails_then 0 Map.empty"] show ?thesis by blast
qed

text \<open>
  C8. When the key is in the loaded cache, \<^verbatim>\<open>unload\<close> releases the profile, removes the key
  from the loaded cache and returns true. When it is not, \<^verbatim>\<open>unload\<close> returns false, releases
  nothing and only warns. In both cases the viewed cache, the pending map, the profile
  objects and the tasks are left as they are.
\<close>

theorem unload_cases:
  "(loadedProfiles s k = Some p \<longrightarrow>
      fst (unload k s) = True \<and>
      loadedProfiles (snd (unload k s)) = (loadedProfiles s)(k := None) \<and>
      trace (snd (unload k s)) = trace s @ [Release p, Print (Unloaded k)]) \<and>
   (loadedProfiles s k = None \<longrightarrow>
      fst (unload k s) = False \<and>
      loadedProfiles (snd (unload k s)) = loadedProfiles s \<and>
      trace (snd (unload k s)) = trace s @ [Warn (CouldNotUnload k)]) \<and>
   viewedProfiles (snd (unload k s)) = viewedProfiles s \<and>
   awaitingOperations (snd (unload k s)) = awaitingOperations s \<and>
   profiles (snd (unload k s)) = profiles s \<and>
   tasks (snd (unload k s)) = tasks s"
  by (cases "loadedProfiles s k") (auto simp: unload_def Let_def emit_def fun_eq_iff)

theorem unload_cases_witness:
  "fst (unload ''P1'' ((init (Map.empty :: nat payload))\<lparr>loadedProfiles := [''P1'' \<mapsto> 0],
      profiles := [Map.empty]\<rparr>)) = True \<and>
   loadedProfiles (snd (unload ''P1'' ((init (Map.empty :: nat payload))\<lparr>loadedProfiles := [''P1'' \<mapsto> 0],
      profiles := [Map.empty]\<rparr>))) ''P1'' = None \<and>
   trace (snd (unload ''P1'' ((init (Map.empty :: nat payload))\<lparr>loadedProfiles := [''P1'' \<mapsto> 0],
      profiles := [Map.empty]\<rparr>))) = [Release 0, Print (Unloaded ''P1'')] \<and>
   fst (unload ''P1'' ((init (Map.empty :: nat payload))\<lparr>viewedProfiles := [''P1'' \<mapsto> 0],
      profiles := [Map.empty]\<rparr>)) = False \<and>
   viewedProfiles (snd (unload ''P1'' ((init (Map.empty :: nat payload))\<lparr>viewedProfiles := [''P1'' \<mapsto> 0],
      profiles := [Map.empty]\<rparr>))) ''P1'' = Some 0 \<and>
   trace (snd (unload ''P1'' ((init (Map.empty :: nat payload))\<lparr>viewedProfiles := [''P1'' \<mapsto> 0],
      profiles := [Map.empty]\<rparr>))) = [Warn (CouldNotUnload ''P1'')]"
proof -
  let ?a = "(init (Map.empty :: nat payload))\<lparr>loadedProfiles := [''P1'' \<mapsto> 0],
      profiles := [Map.empty]\<rparr>"
  let ?b = "(init (Map.empty :: nat payload))\<lparr>viewedProfiles := [''P1'' \<mapsto> 0],
      profiles := [Map.empty]\<rparr>"
  have ha: "loadedProfiles ?a ''P1'' = Some 0" by simp
  have hb: "loadedProfiles ?b ''P1'' = None" by (simp add: init_def)
  have ta: "trace ?a = []" and tb: "trace ?b = []" by (simp_all add: init_def)
  from unload_cases [of ?a "''P1''" 0] ha
  have a: "fst (unload ''P1'' ?a) = True"
    "loadedProfiles (snd (unload ''P1'' ?a)) = (loadedProfiles ?a)(''P1'' := None)"
    "trace (snd (unload ''P1'' ?a)) = trace ?a @ [Release 0, Print (Unloaded ''P1'')]"
    by blast+
  from unload_cases [of ?b "''P1''" 0] hb
  have b: "fst (unload ''P1'' ?b) = False"
    "viewedProfiles (snd (unload ''P1'' ?b)) = viewedProfiles ?b"
    "trace (snd (unload ''P1'' ?b)) = trace ?b @ [Warn (CouldNotUnload ''P1'')]"
    by blast+
  show ?thesis unfolding a b ta tb by simp
qed

section \<open>The halves of view\<close>

lemma log_elapsed_eq: "log_elapsed msg delta s = emit (log_event msg delta) s"
  by (simp add: log_elapsed_def log_event_def)

lemma view_enter_eq:
  "view_enter k s =
     (case loadedProfiles s k of
        Some cached \<Rightarrow> (ViewReturn (Some cached), s)
      | None \<Rightarrow>
          (case viewedProfiles s k of
             Some viewCached \<Rightarrow> (ViewReturn (Some viewCached), s)
           | None \<Rightarrow>
               (case awaitingOperations s k of
                  Some inProgress \<Rightarrow> (ViewSuspendWait (snd inProgress), s)
                | None \<Rightarrow> (ViewSuspendCall (signals s) (clock s), registered_world k s))))"
  by (cases s) (simp add: view_enter_def Let_def emit_def registered_world_def split: option.splits)

lemma view_resume_Some:
  "view_resume k sg t (Some d) s = (Some (length (profiles s)), delivered_world k sg t d s)"
  by (cases s)
     (simp add: view_resume_def Let_def new_profile_def fire_def emit_def log_elapsed_eq
        delivered_world_def cong: if_cong)

lemma view_resume_None: "view_resume k sg t None s = (None, not_found_world k t s)"
  by (cases s) (simp add: view_resume_def Let_def emit_def log_elapsed_eq not_found_world_def)

lemma store_reply_eq: "store_reply env s = (fst (env (calls s)), replied (snd (env (calls s))) s)"
  by (simp add: store_reply_def replied_def split: prod.splits)

lemma view_unfold:
  "view env k s =
     (case loadedProfiles s k of
        Some cached \<Rightarrow> Some (Some cached, s)
      | None \<Rightarrow>
          (case viewedProfiles s k of
             Some viewCached \<Rightarrow> Some (Some viewCached, s)
           | None \<Rightarrow>
               (case awaitingOperations s k of
                  Some inProgress \<Rightarrow> None
                | None \<Rightarrow>
                    (case fst (env (calls s)) of
                       Some d \<Rightarrow>
                         Some (Some (length (profiles s)),
                               delivered_world k (signals s) (clock s) d
                                 (replied (snd (env (calls s))) (registered_world k s)))
                     | None \<Rightarrow>
                         Some (None, not_found_world k (clock s)
                                 (replied (snd (env (calls s))) (registered_world k s)))))))"
  by (simp add: view_def view_enter_eq store_reply_eq view_resume_Some view_resume_None
        registered_world_def replied_def split: option.splits)

lemma registered_world_simps:
  "loadedProfiles (registered_world k s) = loadedProfiles s"
  "viewedProfiles (registered_world k s) = viewedProfiles s"
  "awaitingOperations (registered_world k s) = (awaitingOperations s)(k \<mapsto> (ViewOp, signals s))"
  "tasks (registered_world k s) = tasks s"
  "template (registered_world k s) = template s"
  "profiles (registered_world k s) = profiles s"
  "signals (registered_world k s) = Suc (signals s)"
  "calls (registered_world k s) = calls s"
  "clock (registered_world k s) = clock s"
  "trace (registered_world k s) = trace s @ [ViewProfileAsync k]"
  by (simp_all add: registered_world_def)

lemma delivered_world_simps:
  "loadedProfiles (delivered_world k sg t d s) = loadedProfiles s"
  "viewedProfiles (delivered_world k sg t d s) = (viewedProfiles s)(k \<mapsto> length (profiles s))"
  "awaitingOperations (delivered_world k sg t d s) = (awaitingOperations s)(k := None)"
  "tasks (delivered_world k sg t d s) =
     (\<lambda>j. if tasks s j = ViewWaiting sg then ViewDone (Some (length (profiles s))) else tasks s j)"
  "template (delivered_world k sg t d s) = template s"
  "profiles (delivered_world k sg t d s) = profiles s @ [d]"
  "signals (delivered_world k sg t d s) = signals s"
  "calls (delivered_world k sg t d s) = calls s"
  "clock (delivered_world k sg t d s) = clock s"
  "trace (delivered_world k sg t d s) =
     trace s @ [Fire sg (length (profiles s)),
                log_event (ViewedIn k (round2 (clock s - t))) (clock s - t)]"
  by (simp_all add: delivered_world_def)

lemma not_found_world_simps:
  "loadedProfiles (not_found_world k t s) = loadedProfiles s"
  "viewedProfiles (not_found_world k t s) = viewedProfiles s"
  "awaitingOperations (not_found_world k t s) = awaitingOperations s"
  "tasks (not_found_world k t s) = tasks s"
  "template (not_found_world k t s) = template s"
  "profiles (not_found_world k t s) = profiles s"
  "signals (not_found_world k t s) = signals s"
  "calls (not_found_world k t s) = calls s"
  "clock (not_found_world k t s) = clock s"
  "trace (not_found_world k t s) =
     trace s @ [log_event (ViewedIn k (round2 (clock s - t))) (clock s - t)]"
  by (simp_all add: not_found_world_def)

lemma replied_simps:
  "loadedProfiles (replied took s) = loadedProfiles s"
  "viewedProfiles (replied took s) = viewedProfiles s"
  "awaitingOperations (replied took s) = awaitingOperations s"
  "tasks (replied took s) = tasks s"
  "template (replied took s) = template s"
  "profiles (replied took s) = profiles s"
  "signals (replied took s) = signals s"
  "calls (replied took s) = Suc (calls s)"
  "clock (replied took s) = clock s + took"
  "trace (replied took s) = trace s"
  by (simp_all add: replied_def)

lemma set_task_simps:
  "loadedProfiles (set_task i c s) = loadedProfiles s"
  "viewedProfiles (set_task i c s) = viewedProfiles s"
  "awaitingOperations (set_task i c s) = awaitingOperations s"
  "tasks (set_task i c s) = (tasks s)(i := c)"
  "template (set_task i c s) = template s"
  "profiles (set_task i c s) = profiles s"
  "signals (set_task i c s) = signals s"
  "calls (set_task i c s) = calls s"
  "clock (set_task i c s) = clock s"
  "trace (set_task i c s) = trace s"
  by (simp_all add: set_task_def)

lemma emit_simps:
  "loadedProfiles (emit e s) = loadedProfiles s"
  "viewedProfiles (emit e s) = viewedProfiles s"
  "awaitingOperations (emit e s) = awaitingOperations s"
  "tasks (emit e s) = tasks s"
  "template (emit e s) = template s"
  "profiles (emit e s) = profiles s"
  "signals (emit e s) = signals s"
  "calls (emit e s) = calls s"
  "clock (emit e s) = clock s"
  "trace (emit e s) = trace s @ [e]"
  by (simp_all add: emit_def)

text \<open>What \<^verbatim>\<open>load\<close>, \<^verbatim>\<open>unload\<close> and \<^verbatim>\<open>save\<close> leave alone.\<close>

lemma load_resume_frame:
  "viewedProfiles (snd (load_resume k rt t resp s)) = viewedProfiles s"
  "awaitingOperations (snd (load_resume k rt t resp s)) = awaitingOperations s"
  "tasks (snd (load_resume k rt t resp s)) = tasks s"
  "signals (snd (load_resume k rt t resp s)) = signals s"
  by (cases resp; simp add: load_resume_def Let_def emit_def new_profile_def
        profile_Reconcile_def log_elapsed_def)+

lemma unload_frame:
  "viewedProfiles (snd (unload k s)) = viewedProfiles s"
  "awaitingOperations (snd (unload k s)) = awaitingOperations s"
  "tasks (snd (unload k s)) = tasks s"
  "signals (snd (unload k s)) = signals s"
  by (cases "loadedProfiles s k"; simp add: unload_def Let_def emit_def)+

lemma save_frame:
  "viewedProfiles (snd (save k s)) = viewedProfiles s"
  "awaitingOperations (snd (save k s)) = awaitingOperations s"
  "tasks (snd (save k s)) = tasks s"
  "signals (snd (save k s)) = signals s"
  by (cases "loadedProfiles s k"; simp add: save_def emit_def)+

section \<open>The invariants hold in every reachable world\<close>

lemma step_CallView:
  "tasks s i = Idle \<Longrightarrow>
   step (CallView i k) s =
     (case loadedProfiles s k of
        Some cached \<Rightarrow> set_task i (ViewDone (Some cached)) s
      | None \<Rightarrow>
          (case viewedProfiles s k of
             Some viewCached \<Rightarrow> set_task i (ViewDone (Some viewCached)) s
           | None \<Rightarrow>
               (case awaitingOperations s k of
                  Some inProgress \<Rightarrow> set_task i (ViewWaiting (snd inProgress)) s
                | None \<Rightarrow>
                    set_task i (ViewCalling k (signals s) (clock s)) (registered_world k s))))"
  by (simp add: begin_view_def view_enter_eq split: option.splits)

lemma step_ViewReturns:
  "tasks s i = ViewCalling k sg t \<Longrightarrow>
   step (ViewProfileAsyncReturns i resp) s =
     (case resp of
        Some d \<Rightarrow> set_task i (ViewDone (Some (length (profiles s)))) (delivered_world k sg t d s)
      | None \<Rightarrow> set_task i (ViewDone None) (not_found_world k t s))"
  by (simp add: view_resume_Some view_resume_None split: option.splits)

lemma step_ViewReturns_other:
  "\<forall>k sg t. tasks s i \<noteq> ViewCalling k sg t \<Longrightarrow> step (ViewProfileAsyncReturns i resp) s = s"
  by (cases "tasks s i") simp_all

lemma begin_load_frame: "\<not> in_view (tasks s i) \<Longrightarrow> view_frame s (begin_load i k rt s)"
  by (cases "loadedProfiles s k")
     (simp_all add: view_frame_def begin_load_def load_enter_def set_task_simps emit_simps)

lemma view_frame_refl: "view_frame s s"
  by (simp add: view_frame_def)

lemma step_frame: "\<not> view_action a \<Longrightarrow> view_frame s (step a s)"
proof (cases a)
  case (CallLoad i k rt)
  then show ?thesis by (simp add: begin_load_frame view_frame_refl)
next
  case (LoadProfileAsyncReturns i resp)
  show ?thesis
  proof (cases "tasks s i")
    case (LoadCalling k rt t)
    obtain n s1 where r: "load_resume k rt t resp s = (n, s1)" by (cases "load_resume k rt t resp s")
    have f: "viewedProfiles s1 = viewedProfiles s" "awaitingOperations s1 = awaitingOperations s"
      "tasks s1 = tasks s" "signals s1 = signals s"
      using load_resume_frame [of k rt t resp s] r by simp_all
    show ?thesis using LoadProfileAsyncReturns LoadCalling r f
      by (cases n) (simp_all add: view_frame_def set_task_simps)
  qed (simp_all add: LoadProfileAsyncReturns view_frame_refl)
next
  case (TaskWaitReturns i)
  show ?thesis
  proof (cases "tasks s i")
    case (LoadSleeping k d u)
    then show ?thesis using TaskWaitReturns by (simp add: begin_load_frame view_frame_refl)
  qed (simp_all add: TaskWaitReturns view_frame_refl)
next
  case (CallUnload k)
  then show ?thesis by (simp add: view_frame_def unload_frame)
next
  case (CallSave k)
  then show ?thesis by (simp add: view_frame_def save_frame)
next
  case (Elapse d)
  then show ?thesis by (simp add: view_frame_def)
qed simp_all

lemma in_view_ViewCalling: "tasks s j = ViewCalling k sg t \<Longrightarrow> in_view (tasks s j)"
  by simp

lemma in_view_ViewWaiting: "tasks s j = ViewWaiting sg \<Longrightarrow> in_view (tasks s j)"
  by simp

lemma frame_ViewCalling:
  "view_frame s s' \<Longrightarrow> tasks s' j = ViewCalling k sg t \<longleftrightarrow> tasks s j = ViewCalling k sg t"
  unfolding view_frame_def by (metis in_view.simps(1))

lemma frame_ViewWaiting:
  "view_frame s s' \<Longrightarrow> tasks s' j = ViewWaiting sg \<longleftrightarrow> tasks s j = ViewWaiting sg"
  unfolding view_frame_def by (metis in_view.simps(2))

lemma frame_consistent: "view_frame s s' \<Longrightarrow> consistent s \<Longrightarrow> consistent s'"
  unfolding consistent_def view_calls_registered_def one_view_call_def
  by (simp add: frame_ViewCalling) (simp add: view_frame_def)

lemma frame_orphaned: "view_frame s s' \<Longrightarrow> orphaned sg s \<Longrightarrow> orphaned sg s'"
  unfolding orphaned_def by (simp add: frame_ViewCalling) (simp add: view_frame_def)

lemma frame_stuck: "view_frame s s' \<Longrightarrow> stuck i k sg s \<Longrightarrow> stuck i k sg s'"
  unfolding stuck_def
  by (simp add: frame_consistent frame_orphaned frame_ViewWaiting) (simp add: view_frame_def)

lemma consistentD:
  assumes "consistent s" and "tasks s i = ViewCalling k sg t"
  shows "awaitingOperations s k = Some (ViewOp, sg)" and "viewedProfiles s k = None"
    and "tasks s j = ViewCalling k sg' t' \<Longrightarrow> j = i"
  using assms unfolding consistent_def view_calls_registered_def one_view_call_def by blast+

lemma consistentI:
  assumes "\<And>i k sg t. tasks s i = ViewCalling k sg t \<Longrightarrow>
             awaitingOperations s k = Some (ViewOp, sg) \<and> viewedProfiles s k = None"
    and "\<And>i j k sg t sg' t'. tasks s i = ViewCalling k sg t \<Longrightarrow>
             tasks s j = ViewCalling k sg' t' \<Longrightarrow> i = j"
  shows "consistent s"
  using assms unfolding consistent_def view_calls_registered_def one_view_call_def by blast

lemma set_task_consistent:
  assumes "consistent s" and "\<forall>k sg t. c \<noteq> ViewCalling k sg t"
  shows "consistent (set_task i c s)"
proof (rule consistentI)
  fix j k sg t assume "tasks (set_task i c s) j = ViewCalling k sg t"
  then have "tasks s j = ViewCalling k sg t" using assms(2)
    by (simp add: set_task_simps split: if_splits)
  then show "awaitingOperations (set_task i c s) k = Some (ViewOp, sg) \<and>
             viewedProfiles (set_task i c s) k = None"
    using consistentD(1,2) [OF assms(1)] by (simp add: set_task_simps)
next
  fix j j' k sg t sg' t'
  assume "tasks (set_task i c s) j = ViewCalling k sg t"
    and "tasks (set_task i c s) j' = ViewCalling k sg' t'"
  then have "tasks s j = ViewCalling k sg t" and "tasks s j' = ViewCalling k sg' t'"
    using assms(2) by (simp_all add: set_task_simps split: if_splits)
  then show "j = j'" using consistentD(3) [OF assms(1)] by blast
qed

lemma register_consistent:
  assumes c: "consistent s" and n: "awaitingOperations s k = None" and v: "viewedProfiles s k = None"
  shows "consistent (set_task i (ViewCalling k (signals s) (clock s)) (registered_world k s))"
    (is "consistent ?s'")
proof (rule consistentI)
  fix j k' sg t assume a: "tasks ?s' j = ViewCalling k' sg t"
  show "awaitingOperations ?s' k' = Some (ViewOp, sg) \<and> viewedProfiles ?s' k' = None"
  proof (cases "j = i")
    case True
    with a v show ?thesis by (simp add: set_task_simps registered_world_simps)
  next
    case False
    with a have b: "tasks s j = ViewCalling k' sg t"
      by (simp add: set_task_simps registered_world_simps)
    from consistentD(1,2) [OF c b] n have "k' \<noteq> k" by auto
    with consistentD(1,2) [OF c b] show ?thesis
      by (simp add: set_task_simps registered_world_simps)
  qed
next
  fix j j' k' sg t sg' t'
  assume a: "tasks ?s' j = ViewCalling k' sg t" and b: "tasks ?s' j' = ViewCalling k' sg' t'"
  have other: "\<And>x sg t. x \<noteq> i \<Longrightarrow> tasks ?s' x = ViewCalling k sg t \<Longrightarrow> False"
  proof -
    fix x sg t assume "x \<noteq> i" and "tasks ?s' x = ViewCalling k sg t"
    then have "tasks s x = ViewCalling k sg t" by (simp add: set_task_simps registered_world_simps)
    from consistentD(1) [OF c this] n show False by simp
  qed
  show "j = j'"
  proof (cases "j = i")
    case True
    with a have "k' = k" by (simp add: set_task_simps registered_world_simps)
    with b other [of j'] True show ?thesis by blast
  next
    case False
    show ?thesis
    proof (cases "j' = i")
      case True
      with b have "k' = k" by (simp add: set_task_simps registered_world_simps)
      with a other [of j] False show ?thesis by blast
    next
      case F2: False
      from a False have a': "tasks s j = ViewCalling k' sg t"
        by (simp add: set_task_simps registered_world_simps)
      from b F2 have b': "tasks s j' = ViewCalling k' sg' t'"
        by (simp add: set_task_simps registered_world_simps)
      from consistentD(3) [OF c a' b'] show ?thesis by simp
    qed
  qed
qed

lemma CallView_consistent: "consistent s \<Longrightarrow> consistent (step (CallView i k) s)"
proof (cases "tasks s i = Idle")
  case True
  assume c: "consistent s"
  show ?thesis
  proof (cases "loadedProfiles s k")
    case (Some p)
    with True c show ?thesis by (simp add: step_CallView set_task_consistent del: step.simps)
  next
    case None
    show ?thesis
    proof (cases "viewedProfiles s k")
      case (Some v)
      with True None c show ?thesis by (simp add: step_CallView set_task_consistent del: step.simps)
    next
      case vn: None
      show ?thesis
      proof (cases "awaitingOperations s k")
        case (Some ip)
        with True None vn c show ?thesis by (simp add: step_CallView set_task_consistent del: step.simps)
      next
        case an: None
        with True None vn c show ?thesis by (simp add: step_CallView register_consistent del: step.simps)
      qed
    qed
  qed
qed simp

lemma deliver_consistent:
  assumes c: "consistent s" and ti: "tasks s i = ViewCalling k sg t"
  shows "consistent (set_task i (ViewDone r) (delivered_world k sg t d s))" (is "consistent ?s'")
proof -
  have prev: "\<And>j k' sg' t'. tasks ?s' j = ViewCalling k' sg' t' \<Longrightarrow>
      j \<noteq> i \<and> tasks s j = ViewCalling k' sg' t' \<and> k' \<noteq> k"
  proof -
    fix j k' sg' t' assume a: "tasks ?s' j = ViewCalling k' sg' t'"
    then have ji: "j \<noteq> i" by (auto simp: set_task_simps)
    with a have b: "tasks s j = ViewCalling k' sg' t'"
      by (simp add: set_task_simps delivered_world_simps split: if_splits)
    from consistentD(3) [OF c ti, of j sg' t'] b ji have "k' \<noteq> k" by auto
    with ji b show "j \<noteq> i \<and> tasks s j = ViewCalling k' sg' t' \<and> k' \<noteq> k" by simp
  qed
  show ?thesis
  proof (rule consistentI)
    fix j k' sg' t' assume "tasks ?s' j = ViewCalling k' sg' t'"
    from prev [OF this] have p: "tasks s j = ViewCalling k' sg' t'" and "k' \<noteq> k" by simp_all
    with consistentD(1,2) [OF c p]
    show "awaitingOperations ?s' k' = Some (ViewOp, sg') \<and> viewedProfiles ?s' k' = None"
      by (simp add: set_task_simps delivered_world_simps)
  next
    fix j j' k' sg1 t1 sg2 t2
    assume "tasks ?s' j = ViewCalling k' sg1 t1" and "tasks ?s' j' = ViewCalling k' sg2 t2"
    from prev [OF this(1)] prev [OF this(2)] consistentD(3) [OF c]
    show "j = j'" by blast
  qed
qed

lemma not_found_consistent:
  assumes c: "consistent s"
  shows "consistent (set_task i (ViewDone r) (not_found_world k t s))" (is "consistent ?s'")
proof -
  have f: "view_frame s (not_found_world k t s)"
    by (simp add: view_frame_def not_found_world_simps)
  from frame_consistent [OF f c] show ?thesis by (simp add: set_task_consistent)
qed

lemma ViewReturns_consistent:
  "consistent s \<Longrightarrow> consistent (step (ViewProfileAsyncReturns i resp) s)"
proof (cases "\<exists>k sg t. tasks s i = ViewCalling k sg t")
  case True
  assume c: "consistent s"
  from True obtain k sg t where ti: "tasks s i = ViewCalling k sg t" by blast
  show ?thesis
    by (cases resp)
       (simp_all add: step_ViewReturns [OF ti] deliver_consistent [OF c ti] not_found_consistent [OF c]
          del: step.simps)
next
  case False
  assume "consistent s"
  with False show ?thesis by (simp add: step_ViewReturns_other del: step.simps)
qed

lemma step_consistent: "consistent s \<Longrightarrow> consistent (step a s)"
proof (cases "view_action a")
  case False
  assume "consistent s"
  with step_frame [OF False] show ?thesis by (rule frame_consistent)
next
  case True
  assume c: "consistent s"
  from True show ?thesis
    by (cases a) (simp_all add: CallView_consistent [OF c] ViewReturns_consistent [OF c] del: step.simps)
qed

lemma run_consistent: "consistent s \<Longrightarrow> consistent (run as s)"
  by (induction as arbitrary: s) (simp_all add: step_consistent del: step.simps)

lemma init_consistent: "consistent (init tpl)"
  by (simp add: consistent_def view_calls_registered_def one_view_call_def init_def)

lemma stuckD:
  assumes "stuck i k sg s"
  shows "consistent s" and "sg < signals s" and "tasks s j \<noteq> ViewCalling k' sg t"
    and "tasks s i = ViewWaiting sg" and "awaitingOperations s k = Some (ViewOp, sg)"
    and "viewedProfiles s k = None"
  using assms unfolding stuck_def orphaned_def by blast+

lemma stuckI:
  assumes "consistent s" and "sg < signals s" and "\<And>j k' t. tasks s j \<noteq> ViewCalling k' sg t"
    and "tasks s i = ViewWaiting sg" and "awaitingOperations s k = Some (ViewOp, sg)"
    and "viewedProfiles s k = None"
  shows "stuck i k sg s"
  using assms unfolding stuck_def orphaned_def by blast

lemma set_task_stuck:
  assumes st: "stuck i k sg s" and "j \<noteq> i" and nc: "\<forall>k' sg' t. c \<noteq> ViewCalling k' sg' t"
  shows "stuck i k sg (set_task j c s)"
proof (rule stuckI)
  show "consistent (set_task j c s)" by (rule set_task_consistent [OF stuckD(1) [OF st] nc])
  show "sg < signals (set_task j c s)" using stuckD(2) [OF st] by (simp add: set_task_simps)
  show "\<And>x k' t. tasks (set_task j c s) x \<noteq> ViewCalling k' sg t"
    using stuckD(3) [OF st] nc by (simp add: set_task_simps)
  show "tasks (set_task j c s) i = ViewWaiting sg"
    using stuckD(4) [OF st] assms(2) by (simp add: set_task_simps)
  show "awaitingOperations (set_task j c s) k = Some (ViewOp, sg)"
    using stuckD(5) [OF st] by (simp add: set_task_simps)
  show "viewedProfiles (set_task j c s) k = None"
    using stuckD(6) [OF st] by (simp add: set_task_simps)
qed

lemma CallView_stuck:
  assumes st: "stuck i k sg s"
  shows "stuck i k sg (step (CallView j k') s)"
proof (cases "tasks s j = Idle")
  case True
  with stuckD(4) [OF st] have ji: "j \<noteq> i" by auto
  show ?thesis
  proof (cases "loadedProfiles s k'")
    case (Some p)
    with True show ?thesis by (simp add: step_CallView set_task_stuck [OF st ji] del: step.simps)
  next
    case None
    show ?thesis
    proof (cases "viewedProfiles s k'")
      case (Some v)
      with True None show ?thesis
        by (simp add: step_CallView set_task_stuck [OF st ji] del: step.simps)
    next
      case vn: None
      show ?thesis
      proof (cases "awaitingOperations s k'")
        case (Some ip)
        with True None vn show ?thesis
          by (simp add: step_CallView set_task_stuck [OF st ji] del: step.simps)
      next
        case an: None
        with stuckD(5) [OF st] have kk: "k' \<noteq> k" by auto
        let ?s' = "set_task j (ViewCalling k' (signals s) (clock s)) (registered_world k' s)"
        have "stuck i k sg ?s'"
        proof (rule stuckI)
          show "consistent ?s'" by (rule register_consistent [OF stuckD(1) [OF st] an vn])
          show "sg < signals ?s'"
            using stuckD(2) [OF st] by (simp add: set_task_simps registered_world_simps)
          show "\<And>x k'' t. tasks ?s' x \<noteq> ViewCalling k'' sg t"
            using stuckD(2,3) [OF st] by (simp add: set_task_simps registered_world_simps)
          show "tasks ?s' i = ViewWaiting sg"
            using stuckD(4) [OF st] ji by (simp add: set_task_simps registered_world_simps)
          show "awaitingOperations ?s' k = Some (ViewOp, sg)"
            using stuckD(5) [OF st] kk by (simp add: set_task_simps registered_world_simps)
          show "viewedProfiles ?s' k = None"
            using stuckD(6) [OF st] by (simp add: set_task_simps registered_world_simps)
        qed
        with True None vn an show ?thesis by (simp add: step_CallView del: step.simps)
      qed
    qed
  qed
next
  case False
  with st show ?thesis by simp
qed

lemma ViewReturns_stuck:
  assumes st: "stuck i k sg s"
  shows "stuck i k sg (step (ViewProfileAsyncReturns j resp) s)"
proof (cases "\<exists>k' sg' t. tasks s j = ViewCalling k' sg' t")
  case True
  then obtain k' sg' t where tj: "tasks s j = ViewCalling k' sg' t" by blast
  with stuckD(4) [OF st] have ji: "j \<noteq> i" by auto
  from stuckD(3) [OF st, of j k' t] tj have ss: "sg' \<noteq> sg" by auto
  from consistentD(1) [OF stuckD(1) [OF st] tj] stuckD(5) [OF st] ss have kk: "k' \<noteq> k" by auto
  show ?thesis
  proof (cases resp)
    case None
    have f: "view_frame s (not_found_world k' t s)"
      by (simp add: view_frame_def not_found_world_simps)
    from set_task_stuck [OF frame_stuck [OF f st] ji, of "ViewDone None"] None tj
    show ?thesis by (simp add: step_ViewReturns del: step.simps)
  next
    case (Some d)
    let ?s' = "set_task j (ViewDone (Some (length (profiles s)))) (delivered_world k' sg' t d s)"
    have "stuck i k sg ?s'"
    proof (rule stuckI)
      show "consistent ?s'" by (rule deliver_consistent [OF stuckD(1) [OF st] tj])
      show "sg < signals ?s'"
        using stuckD(2) [OF st] by (simp add: set_task_simps delivered_world_simps)
      show "\<And>x k'' t'. tasks ?s' x \<noteq> ViewCalling k'' sg t'"
        using stuckD(3) [OF st] by (simp add: set_task_simps delivered_world_simps)
      show "tasks ?s' i = ViewWaiting sg"
        using stuckD(4) [OF st] ji ss by (simp add: set_task_simps delivered_world_simps)
      show "awaitingOperations ?s' k = Some (ViewOp, sg)"
        using stuckD(5) [OF st] kk by (simp add: set_task_simps delivered_world_simps)
      show "viewedProfiles ?s' k = None"
        using stuckD(6) [OF st] kk by (simp add: set_task_simps delivered_world_simps)
    qed
    with Some tj show ?thesis by (simp add: step_ViewReturns del: step.simps)
  qed
next
  case False
  with st show ?thesis by (simp add: step_ViewReturns_other del: step.simps)
qed

lemma step_stuck: "stuck i k sg s \<Longrightarrow> stuck i k sg (step a s)"
proof (cases "view_action a")
  case False
  assume "stuck i k sg s"
  with step_frame [OF False] show ?thesis by (rule frame_stuck)
next
  case True
  assume st: "stuck i k sg s"
  from True show ?thesis
    by (cases a) (simp_all add: CallView_stuck [OF st] ViewReturns_stuck [OF st] del: step.simps)
qed

lemma run_stuck: "stuck i k sg s \<Longrightarrow> stuck i k sg (run as s)"
  by (induction as arbitrary: s) (simp_all add: step_stuck del: step.simps)

lemma run_append: "run (as @ bs) s = run bs (run as s)"
  by (induction as arbitrary: s) simp_all

text \<open>The viewed cache only grows, and a cached view is never replaced.\<close>

lemma step_viewed_kept:
  assumes c: "consistent s" and v: "viewedProfiles s k = Some v"
  shows "viewedProfiles (step a s) k = Some v"
proof (cases "view_action a")
  case False
  from step_frame [OF False, of s] v show ?thesis by (simp add: view_frame_def)
next
  case True
  then show ?thesis
  proof (cases a)
    case (CallView i k')
    show ?thesis
    proof (cases "tasks s i = Idle")
      case True
      then show ?thesis using v unfolding CallView
        by (simp add: step_CallView set_task_simps registered_world_simps del: step.simps
              split: option.splits)
    next
      case False
      then show ?thesis using v CallView by simp
    qed
  next
    case (ViewProfileAsyncReturns i resp)
    show ?thesis
    proof (cases "\<exists>k' sg t. tasks s i = ViewCalling k' sg t")
      case True
      then obtain k' sg t where ti: "tasks s i = ViewCalling k' sg t" by blast
      from consistentD(2) [OF c ti] v have "k' \<noteq> k" by auto
      then show ?thesis using v unfolding ViewProfileAsyncReturns
        by (simp add: step_ViewReturns [OF ti] set_task_simps delivered_world_simps
              not_found_world_simps del: step.simps split: option.splits)
    next
      case False
      then show ?thesis using v unfolding ViewProfileAsyncReturns
        by (simp add: step_ViewReturns_other del: step.simps)
    qed
  qed simp_all
qed

lemma run_viewed_kept:
  "consistent s \<Longrightarrow> viewedProfiles s k = Some v \<Longrightarrow> viewedProfiles (run as s) k = Some v"
  by (induction as arbitrary: s) (simp_all add: step_consistent step_viewed_kept del: step.simps)

lemma log_event_not_view [simp]: "log_event m d \<noteq> ViewProfileAsync k"
  by (simp add: log_event_def)

lemma load_resume_view_count:
  "count_list (trace (snd (load_resume k rt t resp s))) (ViewProfileAsync x) =
   count_list (trace s) (ViewProfileAsync x)"
  by (cases resp)
     (simp_all add: load_resume_def Let_def emit_def new_profile_def profile_Reconcile_def
        log_elapsed_def)

lemma begin_load_view_count:
  "count_list (trace (begin_load i k rt s)) (ViewProfileAsync x) =
   count_list (trace s) (ViewProfileAsync x)"
  by (cases "loadedProfiles s k")
     (simp_all add: begin_load_def load_enter_def set_task_simps emit_simps)

lemma unload_view_count:
  "count_list (trace (snd (unload k s))) (ViewProfileAsync x) =
   count_list (trace s) (ViewProfileAsync x)"
  by (cases "loadedProfiles s k") (simp_all add: unload_def Let_def emit_def)

lemma save_view_count:
  "count_list (trace (snd (save k s))) (ViewProfileAsync x) =
   count_list (trace s) (ViewProfileAsync x)"
  by (cases "loadedProfiles s k") (simp_all add: save_def emit_def)

lemma step_view_count:
  "\<not> view_action a \<Longrightarrow>
   count_list (trace (step a s)) (ViewProfileAsync x) = count_list (trace s) (ViewProfileAsync x)"
proof (cases a)
  case (CallLoad i k rt)
  then show ?thesis by (simp add: begin_load_view_count)
next
  case (LoadProfileAsyncReturns i resp)
  show ?thesis
  proof (cases "tasks s i")
    case (LoadCalling k rt t)
    obtain n s1 where r: "load_resume k rt t resp s = (n, s1)" by (cases "load_resume k rt t resp s")
    have "count_list (trace s1) (ViewProfileAsync x) = count_list (trace s) (ViewProfileAsync x)"
      using load_resume_view_count [of k rt t resp s x] r by simp
    then show ?thesis using LoadProfileAsyncReturns LoadCalling r
      by (cases n) (simp_all add: set_task_simps)
  qed (simp_all add: LoadProfileAsyncReturns)
next
  case (TaskWaitReturns i)
  show ?thesis
    by (cases "tasks s i") (simp_all add: TaskWaitReturns begin_load_view_count)
next
  case (CallUnload k)
  then show ?thesis by (simp add: unload_view_count)
next
  case (CallSave k)
  then show ?thesis by (simp add: save_view_count)
next
  case (Elapse d)
  then show ?thesis by simp
qed simp_all

lemma view_called_onceD:
  assumes "view_called_once s"
  shows "count_list (trace s) (ViewProfileAsync k) \<le> 1"
    and "awaitingOperations s k = None \<Longrightarrow> viewedProfiles s k = None \<Longrightarrow>
         count_list (trace s) (ViewProfileAsync k) = 0"
  using assms unfolding view_called_once_def by auto

lemma view_called_onceI:
  assumes "\<And>k. count_list (trace s) (ViewProfileAsync k) \<le> 1"
    and "\<And>k. 0 < count_list (trace s) (ViewProfileAsync k) \<Longrightarrow>
           awaitingOperations s k \<noteq> None \<or> viewedProfiles s k \<noteq> None"
  shows "view_called_once s"
  using assms unfolding view_called_once_def by blast

lemma frame_called_once:
  assumes "view_frame s s'"
    and "\<And>k. count_list (trace s') (ViewProfileAsync k) = count_list (trace s) (ViewProfileAsync k)"
    and "view_called_once s"
  shows "view_called_once s'"
  using assms unfolding view_called_once_def view_frame_def by simp

lemma set_task_called_once: "view_called_once s \<Longrightarrow> view_called_once (set_task i c s)"
  unfolding view_called_once_def by (simp add: set_task_simps)

lemma register_called_once:
  assumes o: "view_called_once s" and n: "awaitingOperations s k = None"
    and v: "viewedProfiles s k = None"
  shows "view_called_once (registered_world k s)"
proof (rule view_called_onceI)
  fix x
  show "count_list (trace (registered_world k s)) (ViewProfileAsync x) \<le> 1"
    using view_called_onceD(1) [OF o, of x] view_called_onceD(2) [OF o n v]
    by (auto simp: registered_world_simps)
next
  fix x assume "0 < count_list (trace (registered_world k s)) (ViewProfileAsync x)"
  then show "awaitingOperations (registered_world k s) x \<noteq> None \<or>
             viewedProfiles (registered_world k s) x \<noteq> None"
    using o unfolding view_called_once_def
    by (cases "x = k") (simp_all add: registered_world_simps)
qed

lemma deliver_called_once:
  assumes o: "view_called_once s"
  shows "view_called_once (delivered_world k sg t d s)"
proof (rule view_called_onceI)
  fix x
  show "count_list (trace (delivered_world k sg t d s)) (ViewProfileAsync x) \<le> 1"
    using view_called_onceD(1) [OF o, of x] by (simp add: delivered_world_simps)
next
  fix x assume "0 < count_list (trace (delivered_world k sg t d s)) (ViewProfileAsync x)"
  then show "awaitingOperations (delivered_world k sg t d s) x \<noteq> None \<or>
             viewedProfiles (delivered_world k sg t d s) x \<noteq> None"
    using o unfolding view_called_once_def
    by (cases "x = k") (simp_all add: delivered_world_simps)
qed

lemma not_found_called_once:
  "view_called_once s \<Longrightarrow> view_called_once (not_found_world k t s)"
  unfolding view_called_once_def by (simp add: not_found_world_simps)

lemma step_called_once: "view_called_once s \<Longrightarrow> view_called_once (step a s)"
proof (cases "view_action a")
  case False
  assume "view_called_once s"
  with step_frame [OF False] step_view_count [OF False] show ?thesis
    by (rule frame_called_once)
next
  case True
  assume o: "view_called_once s"
  from True show ?thesis
  proof (cases a)
    case (CallView i k)
    show ?thesis
    proof (cases "tasks s i = Idle")
      case True
      then show ?thesis unfolding CallView using o
        by (simp add: step_CallView set_task_called_once register_called_once del: step.simps
              split: option.splits)
    next
      case False
      then show ?thesis using o CallView by simp
    qed
  next
    case (ViewProfileAsyncReturns i resp)
    show ?thesis
    proof (cases "\<exists>k sg t. tasks s i = ViewCalling k sg t")
      case True
      then obtain k sg t where ti: "tasks s i = ViewCalling k sg t" by blast
      show ?thesis unfolding ViewProfileAsyncReturns using o
        by (simp add: step_ViewReturns [OF ti] set_task_called_once deliver_called_once
              not_found_called_once del: step.simps split: option.splits)
    next
      case False
      then show ?thesis unfolding ViewProfileAsyncReturns using o
        by (simp add: step_ViewReturns_other del: step.simps)
    qed
  qed simp_all
qed

lemma run_called_once: "view_called_once s \<Longrightarrow> view_called_once (run as s)"
  by (induction as arbitrary: s) (simp_all add: step_called_once del: step.simps)

lemma init_called_once: "view_called_once (init tpl)"
  by (simp add: view_called_once_def init_def)

section \<open>The first retry of load\<close>

lemma load_resume_None:
  "load_resume k rt t None s =
     (LoadRetry (next_delay rt),
      s\<lparr>trace := trace s @ (if next_delay rt > 1 / 2 then [Warn (CouldNotLoad k (next_delay rt))]
                            else []) @ [TaskWait (next_delay rt)]\<rparr>)"
  by (cases s) (simp add: load_resume_def Let_def emit_def next_delay_def)

lemma step_load_first_failure:
  assumes "tasks s i = Idle" and "loadedProfiles s k = None"
  shows "tasks (step (LoadProfileAsyncReturns i None) (step (CallLoad i k rt) s)) i =
           LoadSleeping k (next_delay rt) (clock s + next_delay rt)"
    and "trace (step (LoadProfileAsyncReturns i None) (step (CallLoad i k rt) s)) =
           trace s @ retry_events k (next_delay rt)"
  using assms
  by (simp_all add: begin_load_def load_enter_def load_resume_None set_task_simps emit_simps
        retry_events_def set_task_def)

lemma load_first_failure:
  assumes "loadedProfiles s k = None"
    and "\<forall>i<Suc N. fst (env (calls s + i)) = None"
    and "fst (env (calls s + Suc N)) = Some d"
  shows "\<exists>p s'. load env k rt s = Some (p, s') \<and>
           trace s' = trace s @ retry_events k (next_delay rt) @
             concat (map (\<lambda>i. retry_events k (next_delay rt * 2 ^ Suc i)) [0..<N]) @
             success_events k p (snd (env (calls s + Suc N))) \<and>
           slept (trace s') =
             slept (trace s) @ next_delay rt # map (\<lambda>i. next_delay rt * 2 ^ Suc i) [0..<N]"
proof -
  from load_retries [where env = env and rt = rt, OF assms]
  obtain s' where r: "load env k rt s = Some (length (profiles s), s')"
    and t: "trace s' = trace s @
              concat (map (\<lambda>i. retry_events k (next_delay rt * 2 ^ i)) [0..<Suc N]) @
              success_events k (length (profiles s)) (snd (env (calls s + Suc N)))"
    by blast
  have m: "map (\<lambda>i. retry_events k (next_delay rt * 2 ^ i)) [0..<Suc N] =
      retry_events k (next_delay rt) #
        map (\<lambda>i. retry_events k (next_delay rt * 2 ^ Suc i)) [0..<N]"
    by (simp add: map_upt_Suc del: upt_Suc)
  have t': "trace s' = trace s @ retry_events k (next_delay rt) @
             concat (map (\<lambda>i. retry_events k (next_delay rt * 2 ^ Suc i)) [0..<N]) @
             success_events k (length (profiles s)) (snd (env (calls s + Suc N)))"
    using t unfolding m by simp
  have sl: "slept (trace s') =
             slept (trace s) @ next_delay rt # map (\<lambda>i. next_delay rt * 2 ^ Suc i) [0..<N]"
    unfolding t'
    by (simp add: slept_append slept_retry_events slept_retries slept_success_events)
  from r t' sl show ?thesis by blast
qed

text \<open>
  C10. \<^verbatim>\<open>load\<close> is called with an explicit retry delay \<open>r > 0\<close> on a key that is not loaded
  and the first store attempt fails. If the store succeeds after \<open>N\<close> more failures, the
  call returns, and what it has done starts with the store call, the warning if
  \<open>2 * r > 0.5\<close>, and \<^verbatim>\<open>task.wait(2 * r)\<close>: the first sleep is \<open>2 * r\<close> and the later ones
  double it again. Without the argument the first sleep is \<open>0.1\<close>. Under the scheduler,
  whatever the store does later, the task that entered \<^verbatim>\<open>load\<close> is asleep for \<open>2 * r\<close>
  after the first failure (for \<open>0.1\<close> without the argument), with the same events in the
  trace. The given value is doubled before its first use (lines 48 to 57).
\<close>

theorem load_explicit_delay_doubled:
  assumes "loadedProfiles s k = None" and "0 < r"
  shows "(\<forall>N d. (\<forall>i<Suc N. fst (env (calls s + i)) = None) \<and>
            fst (env (calls s + Suc N)) = Some d \<longrightarrow>
            (\<exists>p s'. load env k (Some r) s = Some (p, s') \<and>
               trace s' = trace s @ retry_events k (2 * r) @
                 concat (map (\<lambda>i. retry_events k (2 * r * 2 ^ Suc i)) [0..<N]) @
                 success_events k p (snd (env (calls s + Suc N))) \<and>
               slept (trace s') =
                 slept (trace s) @ (2 * r) # map (\<lambda>i. 2 * r * 2 ^ Suc i) [0..<N])) \<and>
         (\<forall>N d. (\<forall>i<Suc N. fst (env (calls s + i)) = None) \<and>
            fst (env (calls s + Suc N)) = Some d \<longrightarrow>
            (\<exists>p s'. load env k None s = Some (p, s') \<and>
               slept (trace s') =
                 slept (trace s) @ (1 / 10) # map (\<lambda>i. 1 / 10 * 2 ^ Suc i) [0..<N])) \<and>
         (\<forall>i. tasks s i = Idle \<longrightarrow>
            tasks (step (LoadProfileAsyncReturns i None) (step (CallLoad i k (Some r)) s)) i =
              LoadSleeping k (2 * r) (clock s + 2 * r) \<and>
            trace (step (LoadProfileAsyncReturns i None) (step (CallLoad i k (Some r)) s)) =
              trace s @ retry_events k (2 * r) \<and>
            tasks (step (LoadProfileAsyncReturns i None) (step (CallLoad i k None) s)) i =
              LoadSleeping k (1 / 10) (clock s + 1 / 10) \<and>
            trace (step (LoadProfileAsyncReturns i None) (step (CallLoad i k None) s)) =
              trace s @ retry_events k (1 / 10)) \<and>
         slept (retry_events k (2 * r)) = [2 * r] \<and>
         load_resume k (Some r) t None s =
           (LoadRetry (2 * r),
            s\<lparr>trace := trace s @ (if 2 * r > 1 / 2 then [Warn (CouldNotLoad k (2 * r))] else []) @
                          [TaskWait (2 * r)]\<rparr>) \<and>
         (fst (env (calls s)) = None \<longrightarrow>
            load env k (Some r) s =
              load env k (Some (2 * r)) (retry_world k (Some r) (snd (env (calls s))) s))"
proof -
  have nd: "next_delay (Some r) = 2 * r" "next_delay None = 1 / 10"
    by (simp_all add: next_delay_def)
  have a: "\<forall>N d. (\<forall>i<Suc N. fst (env (calls s + i)) = None) \<and>
            fst (env (calls s + Suc N)) = Some d \<longrightarrow>
            (\<exists>p s'. load env k (Some r) s = Some (p, s') \<and>
               trace s' = trace s @ retry_events k (2 * r) @
                 concat (map (\<lambda>i. retry_events k (2 * r * 2 ^ Suc i)) [0..<N]) @
                 success_events k p (snd (env (calls s + Suc N))) \<and>
               slept (trace s') =
                 slept (trace s) @ (2 * r) # map (\<lambda>i. 2 * r * 2 ^ Suc i) [0..<N])"
  proof (intro allI impI, elim conjE)
    fix N d
    assume f: "\<forall>i<Suc N. fst (env (calls s + i)) = None"
      and g: "fst (env (calls s + Suc N)) = Some d"
    from load_first_failure [where env = env and rt = "Some r", OF assms(1) f g, unfolded nd]
    show "\<exists>p s'. load env k (Some r) s = Some (p, s') \<and>
               trace s' = trace s @ retry_events k (2 * r) @
                 concat (map (\<lambda>i. retry_events k (2 * r * 2 ^ Suc i)) [0..<N]) @
                 success_events k p (snd (env (calls s + Suc N))) \<and>
               slept (trace s') =
                 slept (trace s) @ (2 * r) # map (\<lambda>i. 2 * r * 2 ^ Suc i) [0..<N]" .
  qed
  have b: "\<forall>N d. (\<forall>i<Suc N. fst (env (calls s + i)) = None) \<and>
            fst (env (calls s + Suc N)) = Some d \<longrightarrow>
            (\<exists>p s'. load env k None s = Some (p, s') \<and>
               slept (trace s') =
                 slept (trace s) @ (1 / 10) # map (\<lambda>i. 1 / 10 * 2 ^ Suc i) [0..<N])"
  proof (intro allI impI, elim conjE)
    fix N d
    assume f: "\<forall>i<Suc N. fst (env (calls s + i)) = None"
      and g: "fst (env (calls s + Suc N)) = Some d"
    from load_first_failure [where env = env and rt = None, OF assms(1) f g, unfolded nd]
    show "\<exists>p s'. load env k None s = Some (p, s') \<and>
               slept (trace s') =
                 slept (trace s) @ (1 / 10) # map (\<lambda>i. 1 / 10 * 2 ^ Suc i) [0..<N]"
      by blast
  qed
  have c: "\<forall>i. tasks s i = Idle \<longrightarrow>
            tasks (step (LoadProfileAsyncReturns i None) (step (CallLoad i k (Some r)) s)) i =
              LoadSleeping k (2 * r) (clock s + 2 * r) \<and>
            trace (step (LoadProfileAsyncReturns i None) (step (CallLoad i k (Some r)) s)) =
              trace s @ retry_events k (2 * r) \<and>
            tasks (step (LoadProfileAsyncReturns i None) (step (CallLoad i k None) s)) i =
              LoadSleeping k (1 / 10) (clock s + 1 / 10) \<and>
            trace (step (LoadProfileAsyncReturns i None) (step (CallLoad i k None) s)) =
              trace s @ retry_events k (1 / 10)"
    using step_load_first_failure [where s = s and k = k and rt = "Some r", unfolded nd]
      step_load_first_failure [where s = s and k = k and rt = None, unfolded nd] assms(1)
    by blast
  have d: "slept (retry_events k (2 * r)) = [2 * r]" by (rule slept_retry_events)
  have e: "load_resume k (Some r) t None s =
           (LoadRetry (2 * r),
            s\<lparr>trace := trace s @ (if 2 * r > 1 / 2 then [Warn (CouldNotLoad k (2 * r))] else []) @
                          [TaskWait (2 * r)]\<rparr>)"
    using load_resume_None [of k "Some r" t s] unfolding nd .
  have f: "fst (env (calls s)) = None \<longrightarrow>
            load env k (Some r) s =
              load env k (Some (2 * r)) (retry_world k (Some r) (snd (env (calls s))) s)"
    using assms(1) by (simp add: load_failure nd)
  from a b c d e f show ?thesis by blast
qed

theorem load_explicit_delay_doubled_witness:
  "(\<exists>p s'. load (fails_then 1 Map.empty) ''P1'' (Some 3) (init (Map.empty :: nat payload)) =
       Some (p, s') \<and>
      trace s' = [LoadProfileAsync ''P1'', Warn (CouldNotLoad ''P1'' 6), TaskWait 6,
                  LoadProfileAsync ''P1'', Reconcile p, Print (LoadedIn ''P1'' 0)] \<and>
      slept (trace s') = [6]) \<and>
   (\<exists>p s'. load (fails_then 1 Map.empty) ''P1'' (Some (1 / 8)) (init (Map.empty :: nat payload)) =
       Some (p, s') \<and>
      trace s' = [LoadProfileAsync ''P1'', TaskWait (1 / 4),
                  LoadProfileAsync ''P1'', Reconcile p, Print (LoadedIn ''P1'' 0)] \<and>
      slept (trace s') = [1 / 4]) \<and>
   tasks (step (LoadProfileAsyncReturns 0 None)
            (step (CallLoad 0 ''P1'' (Some 3)) (init (Map.empty :: nat payload)))) 0 =
     LoadSleeping ''P1'' 6 6"
proof -
  let ?env = "fails_then 1 (Map.empty :: nat payload)"
  let ?s = "init (Map.empty :: nat payload)"
  have h1: "loadedProfiles ?s ''P1'' = None" by (simp add: init_def)
  have h2: "(\<forall>i<Suc 0. fst (?env (calls ?s + i)) = None) \<and>
            fst (?env (calls ?s + Suc 0)) = Some Map.empty"
    by (simp add: init_def fails_then_def)
  have i0: "trace ?s = []" "slept (trace ?s) = []" "clock ?s = 0" "tasks ?s 0 = Idle"
    "snd (?env (calls ?s + Suc 0)) = 0"
    by (simp_all add: init_def slept_def fails_then_def)
  have sn: "slept [] = []" by (simp add: slept_def)
  have r1: "(0 :: rat) < 3" and r2: "(0 :: rat) < 1 / 8" by simp_all
  note A = load_explicit_delay_doubled [where env = ?env and s = ?s and k = "''P1''" and r = 3
      and t = 0, OF h1 r1]
  note B = load_explicit_delay_doubled [where env = ?env and s = ?s and k = "''P1''"
      and r = "1 / 8" and t = 0, OF h1 r2]
  from A h2 have
    "\<exists>p s'. load ?env ''P1'' (Some 3) ?s = Some (p, s') \<and>
       trace s' = trace ?s @ retry_events ''P1'' (2 * 3) @
         concat (map (\<lambda>i. retry_events ''P1'' (2 * 3 * 2 ^ Suc i)) [0..<0]) @
         success_events ''P1'' p (snd (?env (calls ?s + Suc 0))) \<and>
       slept (trace s') = slept (trace ?s) @ (2 * 3) # map (\<lambda>i. 2 * 3 * 2 ^ Suc i) [0..<0]"
    by blast
  then have a: "\<exists>p s'. load ?env ''P1'' (Some 3) ?s = Some (p, s') \<and>
      trace s' = [LoadProfileAsync ''P1'', Warn (CouldNotLoad ''P1'' 6), TaskWait 6,
                  LoadProfileAsync ''P1'', Reconcile p, Print (LoadedIn ''P1'' 0)] \<and>
      slept (trace s') = [6]"
    unfolding i0 by (simp add: retry_events_def success_events_def round2_def sn)
  from B h2 have
    "\<exists>p s'. load ?env ''P1'' (Some (1 / 8)) ?s = Some (p, s') \<and>
       trace s' = trace ?s @ retry_events ''P1'' (2 * (1 / 8)) @
         concat (map (\<lambda>i. retry_events ''P1'' (2 * (1 / 8) * 2 ^ Suc i)) [0..<0]) @
         success_events ''P1'' p (snd (?env (calls ?s + Suc 0))) \<and>
       slept (trace s') =
         slept (trace ?s) @ (2 * (1 / 8)) # map (\<lambda>i. 2 * (1 / 8) * 2 ^ Suc i) [0..<0]"
    by blast
  then have b: "\<exists>p s'. load ?env ''P1'' (Some (1 / 8)) ?s = Some (p, s') \<and>
      trace s' = [LoadProfileAsync ''P1'', TaskWait (1 / 4),
                  LoadProfileAsync ''P1'', Reconcile p, Print (LoadedIn ''P1'' 0)] \<and>
      slept (trace s') = [1 / 4]"
    unfolding i0 by (simp add: retry_events_def success_events_def round2_def sn)
  from A i0(4) have
    "tasks (step (LoadProfileAsyncReturns 0 None) (step (CallLoad 0 ''P1'' (Some 3)) ?s)) 0 =
       LoadSleeping ''P1'' (2 * 3) (clock ?s + 2 * 3)"
    by blast
  then have c: "tasks (step (LoadProfileAsyncReturns 0 None) (step (CallLoad 0 ''P1'' (Some 3)) ?s)) 0 =
       LoadSleeping ''P1'' 6 6"
    unfolding i0 by simp
  from a b c show ?thesis by blast
qed

section \<open>Concurrent views of one key\<close>

lemma map_entry_unique: "card {x. m k = Some x} \<le> 1"
  by (cases "m k") simp_all

lemma frame_pending_unviewed: "view_frame s s' \<Longrightarrow> pending_unviewed s \<Longrightarrow> pending_unviewed s'"
  unfolding pending_unviewed_def view_frame_def by simp

lemma set_task_pending_unviewed: "pending_unviewed s \<Longrightarrow> pending_unviewed (set_task i c s)"
  unfolding pending_unviewed_def by (simp add: set_task_simps)

lemma register_pending_unviewed:
  "pending_unviewed s \<Longrightarrow> viewedProfiles s k = None \<Longrightarrow> pending_unviewed (registered_world k s)"
  unfolding pending_unviewed_def by (simp add: registered_world_simps)

lemma deliver_pending_unviewed:
  "pending_unviewed s \<Longrightarrow> pending_unviewed (delivered_world k sg t d s)"
  unfolding pending_unviewed_def by (simp add: delivered_world_simps)

lemma not_found_pending_unviewed:
  "pending_unviewed s \<Longrightarrow> pending_unviewed (not_found_world k t s)"
  unfolding pending_unviewed_def by (simp add: not_found_world_simps)

lemma step_pending_unviewed: "pending_unviewed s \<Longrightarrow> pending_unviewed (step a s)"
proof (cases "view_action a")
  case False
  assume "pending_unviewed s"
  with step_frame [OF False] show ?thesis by (rule frame_pending_unviewed)
next
  case True
  assume o: "pending_unviewed s"
  from True show ?thesis
  proof (cases a)
    case (CallView i k)
    show ?thesis
    proof (cases "tasks s i = Idle")
      case True
      then show ?thesis unfolding CallView using o
        by (simp add: step_CallView set_task_pending_unviewed register_pending_unviewed
              del: step.simps split: option.splits)
    next
      case False
      then show ?thesis using o CallView by simp
    qed
  next
    case (ViewProfileAsyncReturns i resp)
    show ?thesis
    proof (cases "\<exists>k sg t. tasks s i = ViewCalling k sg t")
      case True
      then obtain k sg t where ti: "tasks s i = ViewCalling k sg t" by blast
      show ?thesis unfolding ViewProfileAsyncReturns using o
        by (simp add: step_ViewReturns [OF ti] set_task_pending_unviewed deliver_pending_unviewed
              not_found_pending_unviewed del: step.simps split: option.splits)
    next
      case False
      then show ?thesis unfolding ViewProfileAsyncReturns using o
        by (simp add: step_ViewReturns_other del: step.simps)
    qed
  qed simp_all
qed

lemma run_pending_unviewed: "pending_unviewed s \<Longrightarrow> pending_unviewed (run as s)"
  by (induction as arbitrary: s) (simp_all add: step_pending_unviewed del: step.simps)

lemma init_pending_unviewed: "pending_unviewed (init tpl)"
  by (simp add: pending_unviewed_def init_def)

lemma loaded_while_pending_world:
  "tasks (run loaded_while_pending_run (init tpl)) 0 = ViewCalling ''P1'' 0 0"
  "tasks (run loaded_while_pending_run (init tpl)) 2 = Idle"
  "awaitingOperations (run loaded_while_pending_run (init tpl)) ''P1'' = Some (ViewOp, 0)"
  "loadedProfiles (run loaded_while_pending_run (init tpl)) ''P1'' = Some 0"
  "viewedProfiles (run loaded_while_pending_run (init tpl)) ''P1'' = None"
  by (simp_all add: loaded_while_pending_run_def begin_view_def view_enter_eq set_task_simps
        registered_world_simps begin_load_def load_enter_def emit_simps load_resume_def
        new_profile_def profile_Reconcile_def log_elapsed_def Let_def init_def emit_def
        set_task_def)

lemma two_views:
  "tasks (run [CallView 0 ''P3'', CallView 1 ''P3''] (init tpl)) 0 = ViewCalling ''P3'' 0 0"
  "tasks (run [CallView 0 ''P3'', CallView 1 ''P3''] (init tpl)) 1 = ViewWaiting 0"
  "tasks (run [CallView 0 ''P3'', CallView 1 ''P3''] (init tpl)) 2 = Idle"
  "loadedProfiles (run [CallView 0 ''P3'', CallView 1 ''P3''] (init tpl)) ''P3'' = None"
  "viewedProfiles (run [CallView 0 ''P3'', CallView 1 ''P3''] (init tpl)) ''P3'' = None"
  "trace (run [CallView 0 ''P3'', CallView 1 ''P3''] (init tpl)) = [ViewProfileAsync ''P3'']"
  by (simp_all add: begin_view_def view_enter_eq set_task_simps registered_world_simps init_def)

text \<open>
  C2 fails as stated where the key is loaded while a view of it is pending: on the run
  \<open>loaded_while_pending_run\<close> an operation is pending for \<open>P1\<close> and task 0 is still in
  the store call, yet a task that enters \<^verbatim>\<open>view\<close> then does not suspend on the signal: it
  returns the loaded record at once (lines 83 to 85).
\<close>

theorem view_deduplicated_counterexample:
  "tasks (run loaded_while_pending_run (init (Map.empty :: nat payload))) 0 =
     ViewCalling ''P1'' 0 0 \<and>
   awaitingOperations (run loaded_while_pending_run (init (Map.empty :: nat payload))) ''P1'' =
     Some (ViewOp, 0) \<and>
   tasks (run loaded_while_pending_run (init (Map.empty :: nat payload))) 2 = Idle \<and>
   step (CallView 2 ''P1'') (run loaded_while_pending_run (init (Map.empty :: nat payload))) =
     set_task 2 (ViewDone (Some 0)) (run loaded_while_pending_run (init Map.empty)) \<and>
   tasks (step (CallView 2 ''P1'') (run loaded_while_pending_run (init (Map.empty :: nat payload)))) 2
     \<noteq> ViewWaiting 0"
  by (simp add: loaded_while_pending_world step_CallView set_task_simps del: step.simps)

text \<open>
  C2, with the loaded cache taken into account. The caches and the pending map are maps,
  so a key has at most one loaded record, at most one viewed record and at most one
  pending operation. In every world that the scheduler can reach from the initial one:
  at most one task is suspended in \<^verbatim>\<open>ViewProfileAsync\<close> for the key \<open>k\<close>, and its pending
  operation is registered under \<open>k\<close>; \<^verbatim>\<open>ViewProfileAsync\<close> has been called at most once for
  \<open>k\<close>; a task that enters \<^verbatim>\<open>view\<close> while an operation is pending for \<open>k\<close> suspends on the
  signal of that operation when \<open>k\<close> is not loaded, and returns the loaded record when it
  is, and in both cases changes nothing else, so it makes no store call; and a task that
  enters \<^verbatim>\<open>view\<close> makes a store call only when no operation is pending for \<open>k\<close>,
  registering its own in the same step, with no other task running in between.
\<close>

theorem view_deduplicated:
  assumes "s = run as (init tpl)"
  shows "card {e. awaitingOperations s k = Some e} \<le> 1 \<and>
         card {p. loadedProfiles s k = Some p} \<le> 1 \<and>
         card {p. viewedProfiles s k = Some p} \<le> 1 \<and>
         (\<forall>i j sg t sg' t'. tasks s i = ViewCalling k sg t \<and> tasks s j = ViewCalling k sg' t' \<longrightarrow>
            i = j) \<and>
         (\<forall>i sg t. tasks s i = ViewCalling k sg t \<longrightarrow>
            awaitingOperations s k = Some (ViewOp, sg)) \<and>
         count_list (trace s) (ViewProfileAsync k) \<le> 1 \<and>
         (\<forall>i ip. tasks s i = Idle \<and> awaitingOperations s k = Some ip \<longrightarrow>
            (loadedProfiles s k = None \<longrightarrow>
               step (CallView i k) s = set_task i (ViewWaiting (snd ip)) s) \<and>
            (\<forall>p. loadedProfiles s k = Some p \<longrightarrow>
               step (CallView i k) s = set_task i (ViewDone (Some p)) s)) \<and>
         (\<forall>i. tasks s i = Idle \<and> trace (step (CallView i k) s) \<noteq> trace s \<longrightarrow>
            awaitingOperations s k = None \<and>
            step (CallView i k) s =
              set_task i (ViewCalling k (signals s) (clock s)) (registered_world k s) \<and>
            awaitingOperations (step (CallView i k) s) k = Some (ViewOp, signals s) \<and>
            trace (step (CallView i k) s) = trace s @ [ViewProfileAsync k])"
proof -
  have c: "consistent s" unfolding assms by (rule run_consistent [OF init_consistent])
  have o: "view_called_once s" unfolding assms by (rule run_called_once [OF init_called_once])
  have u: "pending_unviewed s"
    unfolding assms by (rule run_pending_unviewed [OF init_pending_unviewed])
  have a: "\<forall>i j sg t sg' t'. tasks s i = ViewCalling k sg t \<and> tasks s j = ViewCalling k sg' t' \<longrightarrow>
            i = j"
    using consistentD(3) [OF c] by blast
  have b: "\<forall>i sg t. tasks s i = ViewCalling k sg t \<longrightarrow> awaitingOperations s k = Some (ViewOp, sg)"
    using consistentD(1) [OF c] by blast
  have d: "\<forall>i ip. tasks s i = Idle \<and> awaitingOperations s k = Some ip \<longrightarrow>
            (loadedProfiles s k = None \<longrightarrow>
               step (CallView i k) s = set_task i (ViewWaiting (snd ip)) s) \<and>
            (\<forall>p. loadedProfiles s k = Some p \<longrightarrow>
               step (CallView i k) s = set_task i (ViewDone (Some p)) s)"
  proof (intro allI impI, elim conjE)
    fix i ip assume i: "tasks s i = Idle" and p: "awaitingOperations s k = Some ip"
    from u p have v: "viewedProfiles s k = None" unfolding pending_unviewed_def by auto
    show "(loadedProfiles s k = None \<longrightarrow>
               step (CallView i k) s = set_task i (ViewWaiting (snd ip)) s) \<and>
            (\<forall>p. loadedProfiles s k = Some p \<longrightarrow>
               step (CallView i k) s = set_task i (ViewDone (Some p)) s)"
      using p v by (simp add: step_CallView [OF i] del: step.simps)
  qed
  have e: "\<forall>i. tasks s i = Idle \<and> trace (step (CallView i k) s) \<noteq> trace s \<longrightarrow>
            awaitingOperations s k = None \<and>
            step (CallView i k) s =
              set_task i (ViewCalling k (signals s) (clock s)) (registered_world k s) \<and>
            awaitingOperations (step (CallView i k) s) k = Some (ViewOp, signals s) \<and>
            trace (step (CallView i k) s) = trace s @ [ViewProfileAsync k]"
  proof (intro allI impI, elim conjE)
    fix i assume i: "tasks s i = Idle" and t: "trace (step (CallView i k) s) \<noteq> trace s"
    from t have l: "loadedProfiles s k = None"
      by (cases "loadedProfiles s k") (simp_all add: step_CallView [OF i] set_task_simps del: step.simps)
    from t l have v: "viewedProfiles s k = None"
      by (cases "viewedProfiles s k") (simp_all add: step_CallView [OF i] set_task_simps del: step.simps)
    from t l v have p: "awaitingOperations s k = None"
      by (cases "awaitingOperations s k")
         (simp_all add: step_CallView [OF i] set_task_simps del: step.simps)
    from l v p show "awaitingOperations s k = None \<and>
            step (CallView i k) s =
              set_task i (ViewCalling k (signals s) (clock s)) (registered_world k s) \<and>
            awaitingOperations (step (CallView i k) s) k = Some (ViewOp, signals s) \<and>
            trace (step (CallView i k) s) = trace s @ [ViewProfileAsync k]"
      by (simp add: step_CallView [OF i] set_task_simps registered_world_simps del: step.simps)
  qed
  from map_entry_unique [of "awaitingOperations s" k] map_entry_unique [of "loadedProfiles s" k]
    map_entry_unique [of "viewedProfiles s" k] a b view_called_onceD(1) [OF o] d e
  show ?thesis by blast
qed

theorem view_deduplicated_witness:
  "tasks (run [CallView 0 ''P3'', CallView 1 ''P3''] (init (Map.empty :: nat payload))) 0 =
     ViewCalling ''P3'' 0 0 \<and>
   tasks (run [CallView 0 ''P3'', CallView 1 ''P3''] (init (Map.empty :: nat payload))) 1 =
     ViewWaiting 0 \<and>
   awaitingOperations (run [CallView 0 ''P3'', CallView 1 ''P3''] (init (Map.empty :: nat payload)))
     ''P3'' = Some (ViewOp, 0) \<and>
   step (CallView 2 ''P3'') (run [CallView 0 ''P3'', CallView 1 ''P3''] (init (Map.empty :: nat payload))) =
     set_task 2 (ViewWaiting 0) (run [CallView 0 ''P3'', CallView 1 ''P3''] (init Map.empty)) \<and>
   trace (run [CallView 0 ''P3'', CallView 1 ''P3''] (init (Map.empty :: nat payload))) =
     [ViewProfileAsync ''P3''] \<and>
   step (CallView 2 ''P1'') (run loaded_while_pending_run (init (Map.empty :: nat payload))) =
     set_task 2 (ViewDone (Some 0)) (run loaded_while_pending_run (init Map.empty))"
proof -
  let ?s = "run [CallView 0 ''P3'', CallView 1 ''P3''] (init (Map.empty :: nat payload))"
  let ?w = "run loaded_while_pending_run (init (Map.empty :: nat payload))"
  note t = two_views [of "Map.empty :: nat payload"]
  note l = loaded_while_pending_world [of "Map.empty :: nat payload"]
  note d = view_deduplicated [where s = ?s and k = "''P3''", OF refl]
  note f = view_deduplicated [where s = ?w and k = "''P1''", OF refl]
  from d t(1) have p: "awaitingOperations ?s ''P3'' = Some (ViewOp, 0)" by blast
  from d t(3,4) p have "step (CallView 2 ''P3'') ?s = set_task 2 (ViewWaiting (snd (ViewOp, 0 :: nat))) ?s"
    by blast
  moreover from f l(2,3,4) have "step (CallView 2 ''P1'') ?w = set_task 2 (ViewDone (Some 0)) ?w"
    by blast
  ultimately show ?thesis using t(1,2,6) p by simp
qed

lemma view_not_found:
  assumes "loadedProfiles s k = None" and "viewedProfiles s k = None"
    and "awaitingOperations s k = None" and "fst (env (calls s)) = None"
  shows "view env k s =
           Some (None, not_found_world k (clock s)
                         (replied (snd (env (calls s))) (registered_world k s)))"
    and "awaitingOperations
           (not_found_world k (clock s) (replied (snd (env (calls s))) (registered_world k s))) k =
         Some (ViewOp, signals s)"
    and "view env' k
           (not_found_world k (clock s) (replied (snd (env (calls s))) (registered_world k s))) =
         None"
  using assms
  by (simp_all add: view_unfold not_found_world_simps replied_simps registered_world_simps)

lemma not_found_run_world:
  "tasks (run not_found_run (init tpl)) i =
     (if i = 0 then ViewDone None else if i = 1 then ViewWaiting 0 else Idle)"
  "awaitingOperations (run not_found_run (init tpl)) ''P3'' = Some (ViewOp, 0)"
  "viewedProfiles (run not_found_run (init tpl)) ''P3'' = None"
  "signals (run not_found_run (init tpl)) = 1"
  "trace (run not_found_run (init tpl)) = [ViewProfileAsync ''P3'', Print (ViewedIn ''P3'' 0)]"
  by (simp_all add: not_found_run_def begin_view_def view_enter_eq view_resume_None
        set_task_simps registered_world_simps not_found_world_simps init_def log_event_def
        round2_def)

lemma not_found_run_stuck: "stuck 1 ''P3'' 0 (run not_found_run (init tpl))"
proof (rule stuckI)
  show "consistent (run not_found_run (init tpl))"
    by (rule run_consistent [OF init_consistent])
qed (simp_all add: not_found_run_world)

text \<open>
  C1, on the run \<open>not_found_run\<close>. The task that called the store returns nothing and no
  record is delivered (the trace has no \<open>Fire\<close>). But the pending operation of \<open>P3\<close> stays
  registered and task 1 stays suspended in \<^verbatim>\<open>signal.wait()\<close>, whatever happens afterwards;
  and a later \<^verbatim>\<open>view\<close> of \<open>P3\<close>, run alone, never returns.
\<close>

theorem view_not_found_never_resolves:
  "tasks (run not_found_run (init (Map.empty :: nat payload))) 0 = ViewDone None \<and>
   trace (run not_found_run (init (Map.empty :: nat payload))) =
     [ViewProfileAsync ''P3'', Print (ViewedIn ''P3'' 0)] \<and>
   (\<forall>as. tasks (run (not_found_run @ as) (init (Map.empty :: nat payload))) 1 = ViewWaiting 0 \<and>
         awaitingOperations (run (not_found_run @ as) (init (Map.empty :: nat payload))) ''P3'' =
           Some (ViewOp, 0)) \<and>
   view (fails_then 1 Map.empty) ''P3'' (init (Map.empty :: nat payload)) =
     Some (None, not_found_world ''P3'' 0 (replied 0 (registered_world ''P3'' (init Map.empty)))) \<and>
   awaitingOperations
     (not_found_world ''P3'' 0 (replied 0 (registered_world ''P3'' (init (Map.empty :: nat payload)))))
     ''P3'' = Some (ViewOp, 0) \<and>
   (\<forall>env. view env ''P3''
      (not_found_world ''P3'' 0 (replied 0 (registered_world ''P3'' (init (Map.empty :: nat payload))))) =
      None)"
proof -
  let ?i = "init (Map.empty :: nat payload)"
  let ?env = "fails_then 1 (Map.empty :: nat payload)"
  have w: "\<forall>as. tasks (run (not_found_run @ as) ?i) 1 = ViewWaiting 0 \<and>
         awaitingOperations (run (not_found_run @ as) ?i) ''P3'' = Some (ViewOp, 0)"
  proof
    fix as
    have "stuck 1 ''P3'' 0 (run (not_found_run @ as) ?i)"
      unfolding run_append by (rule run_stuck [OF not_found_run_stuck])
    from stuckD(4,5) [OF this]
    show "tasks (run (not_found_run @ as) ?i) 1 = ViewWaiting 0 \<and>
         awaitingOperations (run (not_found_run @ as) ?i) ''P3'' = Some (ViewOp, 0)"
      by simp
  qed
  have h: "loadedProfiles ?i ''P3'' = None" "viewedProfiles ?i ''P3'' = None"
    "awaitingOperations ?i ''P3'' = None" "fst (?env (calls ?i)) = None"
    by (simp_all add: init_def fails_then_def)
  have e: "clock ?i = 0" "snd (?env (calls ?i)) = 0" "signals ?i = 0"
    by (simp_all add: init_def fails_then_def)
  note v = view_not_found [where env = ?env and s = ?i, OF h, unfolded e]
  from not_found_run_world(1,5) [of "Map.empty :: nat payload"] w v show ?thesis by simp
qed



lemma view_viewed_kept:
  assumes "view env k' s = Some (r, s')" and "viewedProfiles s k = Some v"
  shows "viewedProfiles s' k = Some v"
proof (cases "k' = k")
  case True
  with assms show ?thesis by (auto simp: view_unfold split: option.splits)
next
  case False
  with assms show ?thesis
    by (auto simp: view_unfold delivered_world_simps not_found_world_simps replied_simps
          registered_world_simps split: option.splits)
qed

lemma exec1_viewed_kept:
  assumes "exec1 env c s = Some s'" and "viewedProfiles s k = Some v"
  shows "viewedProfiles s' k = Some v"
proof (cases c)
  case (Load k' rt)
  with assms(1) obtain p where "load env k' rt s = Some (p, s')" by auto
  from load_result(2) [OF this] assms(2) show ?thesis by simp
next
  case (View k')
  with assms(1) obtain r where "view env k' s = Some (r, s')" by auto
  from view_viewed_kept [OF this assms(2)] show ?thesis .
next
  case (Unload k')
  with assms show ?thesis by (auto simp: unload_frame)
next
  case (SaveCall k')
  with assms show ?thesis by (auto simp: save_frame)
qed

lemma exec_viewed_kept:
  "exec env cs s = Some s' \<Longrightarrow> viewedProfiles s k = Some v \<Longrightarrow> viewedProfiles s' k = Some v"
proof (induction cs arbitrary: s)
  case Nil
  then show ?case by simp
next
  case (Cons c cs)
  from Cons.prems(1) obtain s1 where a: "exec1 env c s = Some s1" and b: "exec env cs s1 = Some s'"
    by (auto split: option.splits)
  from Cons.IH [OF b exec1_viewed_kept [OF a Cons.prems(2)]] show ?case .
qed

lemma view_caches:
  assumes "view env k s = Some (Some v, s')" and "loadedProfiles s k = None"
  shows "viewedProfiles s' k = Some v"
  using assms
  by (auto simp: view_unfold delivered_world_simps replied_simps registered_world_simps
        split: option.splits)

lemma view_cached:
  "loadedProfiles s k = None \<Longrightarrow> viewedProfiles s k = Some v \<Longrightarrow> view env k s = Some (Some v, s)"
  by (simp add: view_unfold)

lemma step_viewed_stays:
  assumes "viewedProfiles s k \<noteq> None"
  shows "viewedProfiles (step a s) k \<noteq> None"
proof (cases "view_action a")
  case False
  from step_frame [OF False, of s] assms show ?thesis by (simp add: view_frame_def)
next
  case True
  then show ?thesis
  proof (cases a)
    case (CallView i k')
    show ?thesis
    proof (cases "tasks s i = Idle")
      case True
      then show ?thesis using assms unfolding CallView
        by (simp add: step_CallView set_task_simps registered_world_simps del: step.simps
              split: option.splits)
    next
      case False
      then show ?thesis using assms CallView by simp
    qed
  next
    case (ViewProfileAsyncReturns i resp)
    show ?thesis
    proof (cases "\<exists>k' sg t. tasks s i = ViewCalling k' sg t")
      case True
      then obtain k' sg t where ti: "tasks s i = ViewCalling k' sg t" by blast
      show ?thesis using assms unfolding ViewProfileAsyncReturns
        by (simp add: step_ViewReturns [OF ti] set_task_simps delivered_world_simps
              not_found_world_simps del: step.simps split: option.splits)
    next
      case False
      then show ?thesis using assms unfolding ViewProfileAsyncReturns
        by (simp add: step_ViewReturns_other del: step.simps)
    qed
  qed simp_all
qed

text \<open>
  C9. A \<^verbatim>\<open>view\<close> of a key that is not loaded and that returns a record has cached it in the
  viewed cache. Once the viewed cache holds \<open>v\<close> for \<open>k\<close>, it holds \<open>v\<close> for \<open>k\<close> after
  any sequence of calls to \<^verbatim>\<open>load\<close>, \<^verbatim>\<open>view\<close>, \<^verbatim>\<open>unload\<close> and \<^verbatim>\<open>save\<close>, and a
  \<^verbatim>\<open>view\<close> of \<open>k\<close> made then with \<open>k\<close> not loaded returns \<open>v\<close> and leaves the world as it
  is (no store call). The same holds under the scheduler, for every world reached from the
  initial one; and no step of the scheduler removes an entry of the viewed cache.
\<close>

theorem viewed_cache_permanent:
  "(loadedProfiles s k = None \<and> view env k s = Some (Some v, s1) \<longrightarrow>
      viewedProfiles s1 k = Some v) \<and>
   (viewedProfiles s k = Some v \<and> exec env cs s = Some s' \<longrightarrow>
      viewedProfiles s' k = Some v \<and>
      (loadedProfiles s' k = None \<longrightarrow> view env' k s' = Some (Some v, s'))) \<and>
   (viewedProfiles (run as (init tpl)) k = Some v \<longrightarrow>
      viewedProfiles (run (as @ bs) (init tpl)) k = Some v) \<and>
   (viewedProfiles s k \<noteq> None \<longrightarrow> viewedProfiles (step a s) k \<noteq> None)"
proof (intro conjI impI)
  assume "loadedProfiles s k = None \<and> view env k s = Some (Some v, s1)"
  then show "viewedProfiles s1 k = Some v" using view_caches by blast
next
  assume a: "viewedProfiles s k = Some v \<and> exec env cs s = Some s'"
  then show "viewedProfiles s' k = Some v" using exec_viewed_kept by blast
  then show "view env' k s' = Some (Some v, s')" if "loadedProfiles s' k = None"
    using that by (simp add: view_cached)
next
  assume "viewedProfiles (run as (init tpl)) k = Some v"
  then show "viewedProfiles (run (as @ bs) (init tpl)) k = Some v"
    unfolding run_append by (rule run_viewed_kept [OF run_consistent [OF init_consistent]])
next
  assume "viewedProfiles s k \<noteq> None"
  then show "viewedProfiles (step a s) k \<noteq> None" by (rule step_viewed_stays)
qed


theorem viewed_cache_permanent_witness:
  "\<exists>s1 s'. view (fails_then 0 Map.empty) ''P1'' (init (Map.empty :: nat payload)) = Some (Some 0, s1) \<and>
      exec (fails_then 0 Map.empty) [Load ''P1'' None, SaveCall ''P1'', Unload ''P1''] s1 = Some s' \<and>
      loadedProfiles s' ''P1'' = None \<and>
      trace s' = [ViewProfileAsync ''P1'', Fire 0 0, Print (ViewedIn ''P1'' 0),
                  LoadProfileAsync ''P1'', Reconcile 1, Print (LoadedIn ''P1'' 0),
                  Save 1, Release 1, Print (Unloaded ''P1'')] \<and>
      view (fails_then 1 Map.empty) ''P1'' s' = Some (Some 0, s')"
proof -
  let ?env = "fails_then 0 (Map.empty :: nat payload)"
  let ?i = "init (Map.empty :: nat payload)"
  let ?s1 = "delivered_world ''P1'' 0 0 Map.empty (replied 0 (registered_world ''P1'' ?i))"
  let ?s2 = "loaded_world ''P1'' Map.empty 0 ?s1"
  let ?s' = "snd (unload ''P1'' (snd (save ''P1'' ?s2)))"
  have v: "view ?env ''P1'' ?i = Some (Some 0, ?s1)"
    by (simp add: view_unfold init_def fails_then_def)
  have l: "load ?env ''P1'' None ?s1 = Some (1, ?s2)"
    by (simp add: load_unfold delivered_world_simps replied_simps registered_world_simps
          init_def fails_then_def)
  have e: "exec ?env [Load ''P1'' None, SaveCall ''P1'', Unload ''P1''] ?s1 = Some ?s'"
    by (simp add: l)
  have n: "loadedProfiles ?s' ''P1'' = None" by (rule unload_loaded_None)
  have vc: "viewedProfiles ?s1 ''P1'' = Some 0"
    by (simp add: delivered_world_simps replied_simps registered_world_simps init_def)
  have li: "loadedProfiles ?i ''P1'' = None" by (simp add: init_def)
  have t: "trace ?s' = [ViewProfileAsync ''P1'', Fire 0 0, Print (ViewedIn ''P1'' 0),
                  LoadProfileAsync ''P1'', Reconcile 1, Print (LoadedIn ''P1'' 0),
                  Save 1, Release 1, Print (Unloaded ''P1'')]"
    by (simp add: unload_def save_def Let_def emit_simps loaded_world_simps delivered_world_simps
          replied_simps registered_world_simps init_def success_events_def log_event_def round2_def)
  from viewed_cache_permanent [where s = ?s1 and k = "''P1''" and v = 0 and env = ?env
      and cs = "[Load ''P1'' None, SaveCall ''P1'', Unload ''P1'']" and s' = ?s'
      and env' = "fails_then 1 Map.empty"] vc e n
  have "view (fails_then 1 Map.empty) ''P1'' ?s' = Some (Some 0, ?s')" by blast
  with v e n t show ?thesis by blast
qed

end
